theory Spec2Isabelle
  imports Complex_Main
begin

section \<open>Floating-point values\<close>

text \<open>
  A C \<^verbatim>\<open>float\<close> or \<^verbatim>\<open>double\<close> is modelled as an extended real with a NaN. Finite values
  are exact reals: overflow to infinity and the sign of zero are not modelled, and rounding
  is modelled in one place, the table of \<^verbatim>\<open>binom_exact\<close>, whose arithmetic takes the
  rounding of its results as a parameter.
  The special values follow IEEE 754 and Annex F of C99: every comparison with a NaN is
  false (so \<^verbatim>\<open>x != x\<close> holds exactly for a NaN), \<^verbatim>\<open>0/0\<close> and \<^verbatim>\<open>inf - inf\<close> are NaN,
  \<^verbatim>\<open>log(0)\<close> is minus infinity and the logarithm of a negative number is NaN.
  \<^verbatim>\<open>HUGE_VAL\<close> and \<^verbatim>\<open>NAN\<close> of \<^verbatim>\<open>math.h\<close> are \<open>PInf\<close> and \<open>NaN\<close>.
\<close>

datatype double = NaN | PInf | MInf | Fin real

definition HUGE_VAL :: double where
  "HUGE_VAL = PInf"

fun isnan :: "double \<Rightarrow> bool" where
  "isnan NaN = True"
| "isnan _ = False"

fun dneg :: "double \<Rightarrow> double" where
  "dneg NaN = NaN"
| "dneg PInf = MInf"
| "dneg MInf = PInf"
| "dneg (Fin x) = Fin (- x)"

fun dadd :: "double \<Rightarrow> double \<Rightarrow> double" where
  "dadd (Fin x) (Fin y) = Fin (x + y)"
| "dadd NaN _ = NaN"
| "dadd _ NaN = NaN"
| "dadd PInf MInf = NaN"
| "dadd MInf PInf = NaN"
| "dadd PInf _ = PInf"
| "dadd _ PInf = PInf"
| "dadd MInf _ = MInf"
| "dadd _ MInf = MInf"

definition dsub :: "double \<Rightarrow> double \<Rightarrow> double" where
  "dsub x y = dadd x (dneg y)"

text \<open>The sign of a value that is not a NaN: \<open>-1\<close>, \<open>0\<close> or \<open>1\<close>.\<close>

fun dsgn :: "double \<Rightarrow> real" where
  "dsgn (Fin x) = sgn x"
| "dsgn PInf = 1"
| "dsgn MInf = - 1"
| "dsgn NaN = 0"

definition inf_of_sign :: "real \<Rightarrow> double" where
  "inf_of_sign s = (if s = 0 then NaN else if 0 < s then PInf else MInf)"

fun dmul :: "double \<Rightarrow> double \<Rightarrow> double" where
  "dmul (Fin x) (Fin y) = Fin (x * y)"
| "dmul NaN _ = NaN"
| "dmul _ NaN = NaN"
| "dmul x y = inf_of_sign (dsgn x * dsgn y)"

fun ddiv :: "double \<Rightarrow> double \<Rightarrow> double" where
  "ddiv (Fin x) (Fin y) = (if y = 0 then inf_of_sign x else Fin (x / y))"
| "ddiv NaN _ = NaN"
| "ddiv _ NaN = NaN"
| "ddiv (Fin x) _ = Fin 0"
| "ddiv x (Fin y) = inf_of_sign (dsgn x * (if y < 0 then - 1 else 1))"
| "ddiv _ _ = NaN"

fun dsqrt :: "double \<Rightarrow> double" where
  "dsqrt (Fin x) = (if x < 0 then NaN else Fin (sqrt x))"
| "dsqrt PInf = PInf"
| "dsqrt _ = NaN"

fun dlog :: "double \<Rightarrow> double" where
  "dlog (Fin x) = (if x < 0 then NaN else if x = 0 then MInf else Fin (ln x))"
| "dlog PInf = PInf"
| "dlog _ = NaN"

fun log10 :: "double \<Rightarrow> double" where
  "log10 (Fin x) = (if x < 0 then NaN else if x = 0 then MInf else Fin (log 10 x))"
| "log10 PInf = PInf"
| "log10 _ = NaN"

fun dlt :: "double \<Rightarrow> double \<Rightarrow> bool" where
  "dlt (Fin x) (Fin y) = (x < y)"
| "dlt NaN _ = False"
| "dlt _ NaN = False"
| "dlt MInf y = (y \<noteq> MInf)"
| "dlt x PInf = (x \<noteq> PInf)"
| "dlt _ _ = False"

definition dle :: "double \<Rightarrow> double \<Rightarrow> bool" where
  "dle x y = (dlt x y \<or> (\<not> isnan x \<and> x = y))"

text \<open>The C operator \<^verbatim>\<open>!=\<close> on doubles.\<close>

definition dne :: "double \<Rightarrow> double \<Rightarrow> bool" where
  "dne x y = (isnan x \<or> isnan y \<or> x \<noteq> y)"

definition of_int_d :: "int \<Rightarrow> double" where
  "of_int_d i = Fin (of_int i)"

section \<open>Per-record inputs\<close>

text \<open>
  \<^verbatim>\<open>process\<close> works on parallel per-sample arrays of \<^verbatim>\<open>args\<close>, filled for the current
  record by the decoding helpers of \<^verbatim>\<open>mocha.h\<close>, and on the payload of the BAF and LRR
  format fields. The \<open>i\<close>-th element of the list of samples holds the \<open>i\<close>-th entry of each
  array. The 8 and 16 bit entries are integers in their ranges.
\<close>

record sample =
  gt_phase_arr :: int
  fmt_sign_arr :: int
  gt0_arr :: int
  gt1_arr :: int
  ad0_arr :: int
  ad1_arr :: int
  baf_p :: double
  lrr_p :: double
  gender :: int

definition bcf_int8_missing :: int where
  "bcf_int8_missing = - 128"

definition bcf_int16_missing :: int where
  "bcf_int16_missing = - 32768"

datatype error = FetchFailed | WrongAlleleNumber

section \<open>Allele inference\<close>

text \<open>The \<^verbatim>\<open>switch (rec->n_allele)\<close> of \<^verbatim>\<open>process\<close>; its default branch is fatal.\<close>

definition candidate_alleles :: "int \<Rightarrow> error + (int \<times> int)" where
  "candidate_alleles n_allele =
     (if n_allele = 1 then Inr (- 1, - 1)
      else if n_allele = 2 then Inr (0, 1)
      else if n_allele = 3 then Inr (1, 2)
      else Inl WrongAlleleNumber)"

text \<open>
  The index map of one homozygous class, applied to the BAF payload: the values
  \<^verbatim>\<open>baf[imap_arr[0]], ..., baf[imap_arr[n - 1]]\<close> that \<^verbatim>\<open>get_median\<close> is called on.
\<close>

definition hom_bafs :: "int \<Rightarrow> sample list \<Rightarrow> double list" where
  "hom_bafs a ss = map baf_p (filter (\<lambda>s. gt0_arr s = a \<and> gt1_arr s = a) ss)"

text \<open>The class of one median: below one half the first candidate, above it the second.\<close>

definition median_class :: "int \<times> int \<Rightarrow> double \<Rightarrow> int" where
  "median_class alleles m =
     (if dlt m (Fin 0.5) then fst alleles
      else if dlt (Fin 0.5) m then snd alleles
      else - 1)"

definition resolve_alleles :: "int \<times> int \<Rightarrow> int \<times> int \<Rightarrow> int \<times> int" where
  "resolve_alleles alleles alleles_idx =
     (if fst alleles_idx = snd alleles_idx then (- 1, - 1)
      else if fst alleles_idx = - 1
        then (if snd alleles_idx = fst alleles then snd alleles else fst alleles, snd alleles_idx)
      else if snd alleles_idx = - 1
        then (fst alleles_idx, if fst alleles_idx = fst alleles then snd alleles else fst alleles)
      else alleles_idx)"

text \<open>
  The block guarded by \<^verbatim>\<open>args->infer_baf_alleles\<close>. \<^verbatim>\<open>get_median\<close> is defined in
  \<^verbatim>\<open>mocha.h\<close>; it is a parameter here and takes the index-mapped values.
\<close>

definition infer_alleles ::
  "(double list \<Rightarrow> double) \<Rightarrow> int \<Rightarrow> sample list \<Rightarrow> error + (int \<times> int)" where
  "infer_alleles get_median n ss =
     (case candidate_alleles n of
        Inl e \<Rightarrow> Inl e
      | Inr alleles \<Rightarrow>
          Inr (resolve_alleles alleles
                 (median_class alleles (get_median (hom_bafs (fst alleles) ss)),
                  median_class alleles (get_median (hom_bafs (snd alleles) ss)))))"

section \<open>Rounding to binary64\<close>

text \<open>
  \<open>rnd53\<close> is the rounding of IEEE 754 binary64 in the default mode: a real that is not zero
  goes to the nearest real with a significand of 53 bits, and halfway between two of them to
  the one with the even significand. With \<open>e = \<lfloor>log\<^sub>2 \<bar>x\<bar>\<rfloor> - 52\<close> the scaled value \<open>x / 2\<^sup>e\<close>
  lies between \<open>2\<^sup>5\<^sup>2\<close> and \<open>2\<^sup>5\<^sup>3\<close> in absolute value and is rounded to an integer. The exponent
  is not bounded: overflow and subnormal numbers are not modelled (the entries of the
  binomial table lie between \<open>2\<^sup>-\<^sup>1\<^sup>0\<^sup>0\<^sup>0\<close> and 1, far from both).
\<close>

definition round_half_even :: "real \<Rightarrow> int" where
  "round_half_even y =
     (let f = \<lfloor>y\<rfloor> in
      if y - of_int f < 1 / 2 then f
      else if 1 / 2 < y - of_int f then f + 1
      else if even f then f else f + 1)"

definition rnd53 :: "real \<Rightarrow> real" where
  "rnd53 x =
     (if x = 0 then 0
      else let e = \<lfloor>log 2 \<bar>x\<bar>\<rfloor> - 52 in of_int (round_half_even (x / 2 powi e)) * 2 powi e)"

text \<open>
  For the evaluation of \<open>rnd53\<close> on numerals: \<open>fl m e\<close> is the real \<open>m \<sqdot> 2\<^sup>e\<close>, \<open>round_at\<close> rounds
  a quotient from its integer part \<open>f\<close> and twice its remainder \<open>r2\<close>, \<open>rq n d g\<close> is the
  rounding of \<open>n / d \<sqdot> 2\<^sup>g\<close> computed in integers when \<open>n / d\<close> lies between \<open>2\<^sup>5\<^sup>2\<close> and \<open>2\<^sup>5\<^sup>3\<close>,
  \<open>rq2\<close> chooses between two neighbouring exponents, and \<open>nbits\<close> is the number of binary
  digits of a numeral.
\<close>

definition fl :: "int \<Rightarrow> int \<Rightarrow> real" where
  "fl m e = of_int m * 2 powi e"

definition round_at :: "int \<Rightarrow> int \<Rightarrow> int \<Rightarrow> int" where
  "round_at f r2 d = (if r2 < d then f else if d < r2 then f + 1 else if even f then f else f + 1)"

definition rq :: "int \<Rightarrow> int \<Rightarrow> int \<Rightarrow> real" where
  "rq n d g =
     (if 0 < d \<and> 4503599627370496 * d \<le> n \<and> n < 9007199254740992 * d
      then fl (round_at (n div d) (2 * (n mod d)) d) g
      else rnd53 (of_int n / of_int d * 2 powi g))"

definition rq2 :: "int \<Rightarrow> int \<Rightarrow> nat \<Rightarrow> real" where
  "rq2 n d k = (if n < 9007199254740992 * d then rq n d (- int k) else rq n (2 * d) (1 - int k))"

primrec nbits :: "num \<Rightarrow> nat" where
  "nbits num.One = 1"
| "nbits (num.Bit0 n) = nbits n + 1"
| "nbits (num.Bit1 n) = nbits n + 1"

section \<open>The exact two-sided binomial tail and its table\<close>

text \<open>
  The static variables of \<^verbatim>\<open>binom_exact\<close>: the two arrays, indexed from 0, and the number
  of rows filled. \<^verbatim>\<open>hts_expand\<close> grows an allocation and keeps its content, so an array is
  a function from indices to values; the capacities \<^verbatim>\<open>m_dbinom\<close> and \<^verbatim>\<open>m_pbinom\<close> are not
  modelled. \<open>freed\<close> records that the release call has freed the arrays: the pointers
  dangle from then on, and a later look-up is undefined in C.
\<close>

record binom_tab =
  dbinom :: "nat \<Rightarrow> real"
  pbinom :: "nat \<Rightarrow> real"
  n_size :: nat
  freed :: bool

text \<open>The state before the first call: nothing allocated, no row filled.\<close>

definition binom_tab0 :: binom_tab where
  "binom_tab0 = \<lparr>dbinom = (\<lambda>_. 0), pbinom = (\<lambda>_. 0), n_size = 0, freed = False\<rparr>"

text \<open>
  The result of every division, multiplication and addition of doubles in \<^verbatim>\<open>binom_exact\<close>
  goes through the parameter \<open>rnd\<close>: the identity gives the arithmetic of exact reals,
  \<open>rnd53\<close> that of binary64. The conversions \<^verbatim>\<open>(double)i\<close> and \<^verbatim>\<open>(double)j\<close> are exact.

  One pass of the inner loop over \<open>j\<close>; the state is \<open>(curr_idx, prev_idx, dbinom, pbinom)\<close>.
\<close>

definition binom_row_step ::
  "(real \<Rightarrow> real) \<Rightarrow> nat \<Rightarrow> nat \<Rightarrow> nat \<times> nat \<times> (nat \<Rightarrow> real) \<times> (nat \<Rightarrow> real) \<Rightarrow>
   nat \<times> nat \<times> (nat \<Rightarrow> real) \<times> (nat \<Rightarrow> real)" where
  "binom_row_step rnd i j st =
     (case st of (curr_idx0, prev_idx, d, p) \<Rightarrow>
        let curr_idx = curr_idx0 + 1;
            d' = d(curr_idx := rnd (rnd (rnd (real i / real j) * d prev_idx) * 0.5));
            p' = p(curr_idx := rnd (p (curr_idx - 1) + d' curr_idx))
        in (curr_idx, prev_idx + 1, d', p'))"

text \<open>One pass of the outer loop: row \<open>i\<close> from row \<open>i - 1\<close>.\<close>

definition binom_fill_row ::
  "(real \<Rightarrow> real) \<Rightarrow> nat \<Rightarrow> (nat \<Rightarrow> real) \<times> (nat \<Rightarrow> real) \<Rightarrow> (nat \<Rightarrow> real) \<times> (nat \<Rightarrow> real)" where
  "binom_fill_row rnd i dp =
     (case dp of (d, p) \<Rightarrow>
        let prev_idx = (if i - 1 \<noteq> 0 then 1 + ((i - 1) div 2) * (i div 2) else 0);
            curr_idx = 1 + (i div 2) * ((i + 1) div 2);
            d' = d(curr_idx := rnd (d prev_idx * 0.5));
            p' = p(curr_idx := d' curr_idx)
        in snd (snd (fold (binom_row_step rnd i) [1..<(i + 1) div 2] (curr_idx, prev_idx, d', p'))))"

text \<open>The block under \<^verbatim>\<open>if (n >= n_size)\<close>.\<close>

definition binom_grow :: "(real \<Rightarrow> real) \<Rightarrow> nat \<Rightarrow> binom_tab \<Rightarrow> binom_tab" where
  "binom_grow rnd n t =
     (let d0 = (dbinom t)(0 := 1);
          (d, p) = fold (binom_fill_row rnd) [(if n_size t \<noteq> 0 then n_size t else 1)..<n + 1]
                     (d0, pbinom t)
      in t\<lparr>dbinom := d, pbinom := p, n_size := n + 1\<rparr>)"

text \<open>
  \<^verbatim>\<open>binom_exact(k, n)\<close>, with the table passed in and returned. \<^verbatim>\<open>binom_dist\<close> of bcftools
  is a parameter. The shifts \<^verbatim>\<open>n >> 1\<close> and \<^verbatim>\<open>k << 1\<close> are taken only of non-negative
  values at most 1000.
\<close>

definition binom_exact ::
  "(real \<Rightarrow> real) \<Rightarrow> (int \<Rightarrow> real \<Rightarrow> int \<Rightarrow> double) \<Rightarrow> int \<Rightarrow> int \<Rightarrow> binom_tab \<Rightarrow>
   double \<times> binom_tab" where
  "binom_exact rnd binom_dist k n t =
     (if n < 0 \<and> k < 0 then (NaN, t\<lparr>freed := True\<rparr>)
      else if n < 0 \<or> k < 0 \<or> k > n then (NaN, t)
      else if n > 1000 then (binom_dist n 0.5 k, t)
      else if k = n div 2 then (Fin 1, t)
      else
        let k' = (if 2 * k > n then n - k else k);
            t' = (if nat n \<ge> n_size t then binom_grow rnd (nat n) t else t);
            idx = 1 + (nat n div 2) * ((nat n + 1) div 2) + nat k'
        in (Fin (rnd (2 * pbinom t' idx)), t'))"

section \<open>Welch's t-test\<close>

text \<open>The accumulation loop of \<^verbatim>\<open>sample_mean_var\<close>: sum, sum of squares, number of non-NaNs.\<close>

definition sample_sums :: "double list \<Rightarrow> double \<times> double \<times> nat" where
  "sample_sums x =
     foldl (\<lambda>(xm, xss, j) v.
              if \<not> isnan v then (dadd xm v, dadd xss (dmul v v), j + 1) else (xm, xss, j))
           (Fin 0, Fin 0, 0) x"

text \<open>
  \<^verbatim>\<open>sample_mean_var(x, n, &xm, &xss)\<close> on the \<open>n\<close> values \<open>x\<close>. The result is the return code
  with the contents of \<^verbatim>\<open>*xm\<close> and \<^verbatim>\<open>*xss\<close>, which the first early return leaves as they
  were (\<open>out\<close>).
\<close>

definition sample_mean_var :: "double list \<Rightarrow> double \<times> double \<Rightarrow> int \<times> double \<times> double" where
  "sample_mean_var x out =
     (if length x < 2 then (- 1, out)
      else
        case sample_sums x of (xm0, xss0, j) \<Rightarrow>
          if j \<le> 1 then (- 1, xm0, xss0)
          else
            let xm = ddiv xm0 (Fin (real j));
                xss1 = dsub xss0 (dmul (dmul xm xm) (Fin (real j)));
                xss = ddiv xss1 (Fin (real (j - 1)))
            in (0, xm, xss))"

text \<open>
  \<^verbatim>\<open>welch_t_test(a, b, na, nb)\<close> on the first \<open>na\<close> and \<open>nb\<close> values of the two arrays;
  \<^verbatim>\<open>kf_betai\<close> of htslib is a parameter. The return codes of \<^verbatim>\<open>sample_mean_var\<close> are
  ignored, as in the source.
\<close>

definition welch_t_test ::
  "(double \<Rightarrow> double \<Rightarrow> double \<Rightarrow> double) \<Rightarrow> double list \<Rightarrow> double list \<Rightarrow> double" where
  "welch_t_test kf_betai a b =
     (if length a < 2 \<or> length b < 2 then HUGE_VAL
      else
        case sample_mean_var a (NaN, NaN) of (_, mua, sa2) \<Rightarrow>
        case sample_mean_var b (NaN, NaN) of (_, mub, sb2) \<Rightarrow>
          let na = Fin (real (length a));
              nb = Fin (real (length b));
              na1 = Fin (real (length a) - 1);
              nb1 = Fin (real (length b) - 1);
              s = dadd (ddiv sa2 na) (ddiv sb2 nb);
              t = ddiv (dsub mua mub) (dsqrt s);
              v0 = dmul s s;
              v = ddiv v0 (dadd (ddiv (ddiv (ddiv (dmul sa2 sa2) na) na) na1)
                                (ddiv (ddiv (ddiv (dmul sb2 sb2) nb) nb) nb1))
          in kf_betai (ddiv v (Fin 2)) (Fin 0.5) (ddiv v (dadd v (dmul t t))))"

section \<open>The Mann-Whitney U test\<close>

text \<open>The C operator \<^verbatim>\<open>==\<close> on doubles, and the comparison function given to \<^verbatim>\<open>qsort\<close>.\<close>

definition deq :: "double \<Rightarrow> double \<Rightarrow> bool" where
  "deq x y = (\<not> isnan x \<and> \<not> isnan y \<and> x = y)"

definition cmpfunc :: "double \<Rightarrow> double \<Rightarrow> int" where
  "cmpfunc a b = (if dlt b a then 1 else 0) - (if dlt a b then 1 else 0)"

text \<open>
  \<^verbatim>\<open>qsort\<close> with \<^verbatim>\<open>cmpfunc\<close> is modelled by an insertion sort under \<^verbatim>\<open>cmpfunc\<close>. On values
  without a NaN the result is the ascending arrangement, which is what C specifies; with a
  NaN the comparison is not an order and C leaves the arrangement open.
\<close>

fun insort_cmp :: "double \<Rightarrow> double list \<Rightarrow> double list" where
  "insort_cmp x [] = [x]"
| "insort_cmp x (y # ys) = (if cmpfunc x y \<le> 0 then x # y # ys else y # insort_cmp x ys)"

definition qsort :: "double list \<Rightarrow> double list" where
  "qsort xs = foldr insort_cmp xs []"

text \<open>
  The merge walk \<^verbatim>\<open>while (i < na || j < nb)\<close>. \<open>a\<close> and \<open>b\<close> are the parts of the sorted
  arrays from \<open>i\<close> and from \<open>j\<close> on, \<open>j\<close> is the index into the second array. The two inner
  loops count and skip the leading values equal to \<open>curr\<close>. The walk does not advance over a
  NaN, for which \<^verbatim>\<open>==\<close> is false: the loop is partial, \<open>None\<close> meaning that it never ends.
\<close>

partial_function (option) mwu_walk ::
  "double list \<Rightarrow> double list \<Rightarrow> nat \<Rightarrow> real \<Rightarrow> real \<Rightarrow> (real \<times> real) option" where
  "mwu_walk a b j U ties =
     (if a = [] \<and> b = [] then Some (U, ties)
      else
        let curr = (if b = [] \<or> (a \<noteq> [] \<and> dlt (hd a) (hd b)) then hd a else hd b);
            ca = length (takeWhile (\<lambda>x. deq x curr) a);
            cb = length (takeWhile (\<lambda>x. deq x curr) b);
            j' = j + cb;
            U' = U + real ca * (real j' - real cb * 0.5);
            ties' = (if ca \<noteq> 0 \<and> cb \<noteq> 0
                     then ties + ((real (ca + cb))\<^sup>2 - 1) * real (ca + cb) else ties)
        in mwu_walk (dropWhile (\<lambda>x. deq x curr) a) (dropWhile (\<lambda>x. deq x curr) b) j' U' ties')"

declare mwu_walk.simps [code]

text \<open>The conversion \<^verbatim>\<open>(int)\<close> of a double: truncation towards zero.\<close>

definition trunc_int :: "real \<Rightarrow> int" where
  "trunc_int x = (if 0 \<le> x then \<lfloor>x\<rfloor> else \<lceil>x\<rceil>)"

text \<open>The part of \<^verbatim>\<open>mann_whitney_u\<close> after the walk, from \<open>U\<close> and \<open>ties\<close>.\<close>

definition mwu_pvalue ::
  "(double \<Rightarrow> double) \<Rightarrow> (int \<Rightarrow> int \<Rightarrow> int \<Rightarrow> real) \<Rightarrow> nat \<Rightarrow> nat \<Rightarrow> real \<Rightarrow> real \<Rightarrow> double" where
  "mwu_pvalue kf_erfc mann_whitney_1947_cdf na nb U ties =
     (if na = 0 \<or> nb = 0 then HUGE_VAL
      else
        let U_min = (if U < real na * real nb - U then U else real na * real nb - U) in
        if na = 1 then Fin (2 * (of_int \<lfloor>U_min\<rfloor> + 1) / real (nb + 1))
        else if nb = 1 then Fin (2 * (of_int \<lfloor>U_min\<rfloor> + 1) / real (na + 1))
        else if na \<ge> 8 \<or> nb \<ge> 8 then
          let mean = real na * real nb * 0.5;
              N = real (na + nb);
              var2 = (N\<^sup>2 - 1) * N - ties
          in if var2 = 0 then Fin 1
             else
               let var2' = var2 * (real na * real nb / N / (N - 1) / 12);
                   z = ddiv (Fin (U_min - mean)) (dsqrt (Fin (2 * var2')))
               in kf_erfc (dneg z)
        else
          let pval = 2 * mann_whitney_1947_cdf (int na) (int nb) (trunc_int U_min)
          in Fin (if pval > 1 then 1 else pval))"

text \<open>
  \<^verbatim>\<open>mann_whitney_u(a, b, na, nb)\<close> on the first \<open>na\<close> and \<open>nb\<close> values of the two arrays. It
  sorts them in place: the result is the p-value with the two sorted arrays. \<^verbatim>\<open>kf_erfc\<close> of
  htslib and \<^verbatim>\<open>mann_whitney_1947_cdf\<close> of bcftools are parameters.
\<close>

definition mann_whitney_u ::
  "(double \<Rightarrow> double) \<Rightarrow> (int \<Rightarrow> int \<Rightarrow> int \<Rightarrow> real) \<Rightarrow> double list \<Rightarrow> double list \<Rightarrow>
   (double \<times> double list \<times> double list) option" where
  "mann_whitney_u kf_erfc mann_whitney_1947_cdf a0 b0 =
     (let a = qsort a0; b = qsort b0 in
      case mwu_walk a b 0 0 0 of
        None \<Rightarrow> None
      | Some (U, ties) \<Rightarrow>
          Some (mwu_pvalue kf_erfc mann_whitney_1947_cdf (length a0) (length b0) U ties, a, b))"

section \<open>Sequence context\<close>

text \<open>
  The window fetched by \<^verbatim>\<open>faidx_fetch_seq\<close> is a string of \<^verbatim>\<open>fa_len\<close> bytes. A \<^verbatim>\<open>char\<close>
  is signed here, so the bytes above 96 are 97 to 127; they are moved down by 32.
\<close>

definition upper :: "char \<Rightarrow> char" where
  "upper c = (if 96 < (of_char c :: nat) \<and> (of_char c :: nat) < 128
              then char_of ((of_char c :: nat) - 32) else c)"

text \<open>
  One pass of the loop over the window. The state is the byte before the current one, as
  the loop has left it (upper-cased), with \<^verbatim>\<open>at_cnt\<close>, \<^verbatim>\<open>cg_cnt\<close> and \<^verbatim>\<open>cpg_cnt\<close>.
\<close>

definition gc_step :: "char option \<times> int \<times> int \<times> int \<Rightarrow> char \<Rightarrow> char option \<times> int \<times> int \<times> int" where
  "gc_step st c0 =
     (case st of (prev, at_cnt, cg_cnt, cpg_cnt) \<Rightarrow>
        let c = upper c0 in
        (Some c,
         (if c = CHR ''A'' \<or> c = CHR ''T'' then at_cnt + 1 else at_cnt),
         (if c = CHR ''C'' \<or> c = CHR ''G'' then cg_cnt + 1 else cg_cnt),
         (if prev = Some (CHR ''C'') \<and> c = CHR ''G'' then cpg_cnt + 2 else cpg_cnt)))"

definition gc_counts :: "string \<Rightarrow> int \<times> int \<times> int" where
  "gc_counts fa = snd (foldl gc_step (None, 0, 0, 0) fa)"

text \<open>The two ratios written to \<^verbatim>\<open>GC\<close> and \<^verbatim>\<open>CpG\<close>.\<close>

definition gc_content :: "string \<Rightarrow> double \<times> double" where
  "gc_content fa =
     (case gc_counts fa of (at_cnt, cg_cnt, cpg_cnt) \<Rightarrow>
        (ddiv (of_int_d cg_cnt) (of_int_d (at_cnt + cg_cnt)),
         ddiv (of_int_d cpg_cnt) (of_int_d (int (length fa)))))"

section \<open>Per-sample aggregation\<close>

text \<open>Integer division of C, which truncates towards zero.\<close>

definition cdiv :: "int \<Rightarrow> int \<Rightarrow> int" where
  "cdiv a b = sgn a * sgn b * (\<bar>a\<bar> div \<bar>b\<bar>)"

text \<open>
  What \<^verbatim>\<open>process\<close> knows of the current record once the format fields are decoded: the
  fetched window (\<open>None\<close> when the fetch fails), the number of alleles, the results of
  \<^verbatim>\<open>bcf_get_genotype_phase\<close>, \<^verbatim>\<open>bcf_get_genotype_alleles\<close>, \<^verbatim>\<open>bcf_get_format_sign\<close> and
  \<^verbatim>\<open>bcf_get_allelic_depth\<close> as truth values (the locals \<^verbatim>\<open>gt_phase\<close>, \<^verbatim>\<open>fmt_sign\<close> and \<^verbatim>\<open>ad\<close>),
  the locals \<^verbatim>\<open>baf\<close> and \<^verbatim>\<open>lrr\<close>, and the per-sample entries.
\<close>

record bcf1 =
  fa :: "string option"
  n_allele :: int
  gt_phase :: bool
  gt_alleles :: bool
  fmt_sign :: bool
  ad_fmt :: bool
  baf :: bool
  lrr :: bool
  smpls :: "sample list"

text \<open>
  The options of \<^verbatim>\<open>args_t\<close> that \<^verbatim>\<open>process\<close> tests: \<open>ad\<close> and \<open>phase\<close> as they are,
  \<open>format\<close>, \<open>gender_given\<close> and \<open>fai\<close> for the pointers \<^verbatim>\<open>args->format\<close>, \<^verbatim>\<open>args->gender\<close>
  and \<^verbatim>\<open>args->fai\<close> not being null.
\<close>

record args_t =
  phase :: bool
  ad :: bool
  format :: bool
  gender_given :: bool
  fai :: bool
  infer_baf_alleles :: bool

text \<open>
  The counters of \<^verbatim>\<open>process\<close> and the two arrays \<^verbatim>\<open>args->baf_arr[0]\<close> and
  \<^verbatim>\<open>args->baf_arr[1]\<close>, which keep their content from one record to the next. \<open>n_stored\<close>
  is not a variable of the source: it counts, for each of the two arrays, how often the
  loop has executed the store into it.
\<close>

record agg =
  ac_het :: int
  ac_sex :: "int list"
  ac_het_sex :: "int list"
  ac_het_phase :: "int list"
  fmt_bal :: "int list"
  fmt_bal_phase :: "int list"
  ad_het :: "int list"
  baf_arr :: "double list list"
  n_stored :: "nat list"

definition agg0 :: "double list list \<Rightarrow> agg" where
  "agg0 arrs =
     \<lparr>ac_het = 0, ac_sex = [0, 0, 0, 0], ac_het_sex = [0, 0], ac_het_phase = [0, 0],
      fmt_bal = [0, 0], fmt_bal_phase = [0, 0], ad_het = [0, 0], baf_arr = arrs,
      n_stored = [0, 0]\<rparr>"

text \<open>
  \<^verbatim>\<open>xs[k] += d\<close> for a valid index \<open>k\<close>. The counters are of type \<^verbatim>\<open>int\<close>, 32 bits wide.
  Those that count samples stay below the number of samples and cannot overflow. The two
  sums of allelic depths can: there the addition is taken to wrap around, as it does on the
  usual targets (in C the overflow of a signed addition is undefined).
\<close>

definition bump :: "int \<Rightarrow> int \<Rightarrow> int list \<Rightarrow> int list" where
  "bump k d xs = xs[nat k := xs ! nat k + d]"

definition wrap32 :: "int \<Rightarrow> int" where
  "wrap32 x = (x + 2147483648) mod 4294967296 - 2147483648"

definition bump32 :: "int \<Rightarrow> int \<Rightarrow> int list \<Rightarrow> int list" where
  "bump32 k d xs = xs[nat k := wrap32 (xs ! nat k + d)]"

text \<open>The part of the loop body before the test for a heterozygous genotype.\<close>

definition count_all :: "args_t \<Rightarrow> bcf1 \<Rightarrow> int \<Rightarrow> sample \<Rightarrow> agg \<Rightarrow> agg" where
  "count_all args r idx_fmt_sign s g =
     (let g1 = (if idx_fmt_sign \<ge> 0 then g\<lparr>fmt_bal := bump idx_fmt_sign 1 (fmt_bal g)\<rparr> else g)
      in if gender_given args \<and> (gender s = 1 \<or> gender s = 2) then
           (if gt0_arr s = 0 \<and> gt1_arr s = 0
              then g1\<lparr>ac_sex := bump (gender s - 1) 1 (ac_sex g1)\<rparr>
            else if gt0_arr s > 0 \<and> gt1_arr s > 0
              then g1\<lparr>ac_sex := bump (2 + gender s - 1) 1 (ac_sex g1)\<rparr>
            else g1)
         else g1)"

text \<open>
  The part of the loop body for a heterozygous genotype: the two indices, the counters, the
  BAF of the sample and the store into the array of its phase.
\<close>

definition idx_gt_phase :: "bcf1 \<Rightarrow> sample \<Rightarrow> int" where
  "idx_gt_phase r s =
     (if gt_phase r \<and> (gt_phase_arr s = - 1 \<or> gt_phase_arr s = 1)
      then cdiv (1 - gt_phase_arr s) 2 else - 1)"

definition idx_fmt_phase :: "bcf1 \<Rightarrow> int \<Rightarrow> sample \<Rightarrow> int" where
  "idx_fmt_phase r idx_fmt_sign s =
     (if idx_gt_phase r s \<ge> 0 \<and> idx_fmt_sign \<ge> 0
      then cdiv (1 - fmt_sign_arr s * gt_phase_arr s) 2 else - 1)"

definition count_het_counters :: "args_t \<Rightarrow> bcf1 \<Rightarrow> int \<Rightarrow> sample \<Rightarrow> agg \<Rightarrow> agg" where
  "count_het_counters args r idx_fmt_sign s g =
     (let g1 = g\<lparr>ac_het := ac_het g + 1\<rparr>;
          g2 = (if gender_given args \<and> (gender s = 1 \<or> gender s = 2)
                then g1\<lparr>ac_het_sex := bump (gender s - 1) 1 (ac_het_sex g1)\<rparr> else g1);
          g3 = (if idx_gt_phase r s \<ge> 0
                then g2\<lparr>ac_het_phase := bump (idx_gt_phase r s) 1 (ac_het_phase g2)\<rparr> else g2);
          g4 = (if idx_fmt_phase r idx_fmt_sign s \<ge> 0
                then g3\<lparr>fmt_bal_phase :=
                          bump (idx_fmt_phase r idx_fmt_sign s) 1 (fmt_bal_phase g3)\<rparr>
                else g3)
      in if ad_fmt r
         then g4\<lparr>ad_het := bump32 1 (ad1_arr s) (bump32 0 (ad0_arr s) (ad_het g4))\<rparr> else g4)"

definition curr_baf :: "bcf1 \<Rightarrow> sample \<Rightarrow> double" where
  "curr_baf r s =
     (if baf r then baf_p s
      else if ad_fmt r
        then ddiv (Fin (of_int (ad1_arr s) + 0.5))
                  (Fin (of_int (ad0_arr s) + of_int (ad1_arr s) + 1))
      else NaN)"

definition store_baf :: "int \<Rightarrow> double \<Rightarrow> agg \<Rightarrow> agg" where
  "store_baf k x g =
     (if k \<ge> 0 \<and> \<not> isnan x then
        g\<lparr>baf_arr := (baf_arr g)
               [nat k := (baf_arr g ! nat k)[nat (ac_het_phase g ! nat k - 1) := x]],
          n_stored := (n_stored g)[nat k := n_stored g ! nat k + 1]\<rparr>
      else g)"

definition count_het :: "args_t \<Rightarrow> bcf1 \<Rightarrow> int \<Rightarrow> sample \<Rightarrow> agg \<Rightarrow> agg" where
  "count_het args r idx_fmt_sign s g =
     store_baf (idx_gt_phase r s) (curr_baf r s) (count_het_counters args r idx_fmt_sign s g)"

text \<open>
  The body of the loop over the samples. The test for a missing genotype reads
  \<^verbatim>\<open>gt0_arr[i]\<close> twice, as the source does.
\<close>

definition aggregate_step :: "args_t \<Rightarrow> bcf1 \<Rightarrow> agg \<Rightarrow> sample \<Rightarrow> agg" where
  "aggregate_step args r g s =
     (if gt0_arr s = bcf_int16_missing \<or> gt0_arr s = bcf_int16_missing then g
      else
        let idx_fmt_sign =
              (if fmt_sign r \<and> fmt_sign_arr s \<noteq> bcf_int8_missing \<and> fmt_sign_arr s \<noteq> 0
               then cdiv (1 - fmt_sign_arr s) 2 else - 1);
            g1 = count_all args r idx_fmt_sign s g
        in if gt0_arr s = gt1_arr s \<or> (gt0_arr s \<noteq> 0 \<and> gt1_arr s \<noteq> 0) then g1
           else count_het args r idx_fmt_sign s g1)"

definition aggregate :: "args_t \<Rightarrow> bcf1 \<Rightarrow> double list list \<Rightarrow> agg" where
  "aggregate args r arrs = foldl (aggregate_step args r) (agg0 arrs) (smpls r)"

section \<open>The test battery and \<^verbatim>\<open>process\<close>\<close>

text \<open>
  The functions that \<^verbatim>\<open>process\<close> and the kernels call and that are defined outside the
  source file: \<^verbatim>\<open>binom_dist\<close> and \<^verbatim>\<open>mann_whitney_1947_cdf\<close> of bcftools, \<^verbatim>\<open>kf_betai\<close>,
  \<^verbatim>\<open>kf_erfc\<close> and \<^verbatim>\<open>kt_fisher_exact\<close> of htslib, and \<^verbatim>\<open>get_median\<close> of \<^verbatim>\<open>mocha.h\<close>, which
  takes the values it is to look at.
\<close>

record kernels =
  binom_dist :: "int \<Rightarrow> real \<Rightarrow> int \<Rightarrow> double"
  mann_whitney_1947_cdf :: "int \<Rightarrow> int \<Rightarrow> int \<Rightarrow> real"
  kf_betai :: "double \<Rightarrow> double \<Rightarrow> double \<Rightarrow> double"
  kf_erfc :: "double \<Rightarrow> double"
  kt_fisher_exact :: "int \<Rightarrow> int \<Rightarrow> int \<Rightarrow> int \<Rightarrow> double"
  get_median :: "double list \<Rightarrow> double"

text \<open>The INFO fields that \<^verbatim>\<open>process\<close> writes; \<open>None\<close> is a field not written.\<close>

record annots =
  GC :: "double option"
  CpG :: "double option"
  AC_Het :: "int option"
  AC_Het_Sex :: "int list option"
  AC_Sex_Test :: "double option"
  AC_Het_Phase :: "int list option"
  AC_Het_Phase_Test :: "double option"
  Bal :: "int list option"
  Bal_Test :: "double option"
  Bal_Phase :: "int list option"
  Bal_Phase_Test :: "double option"
  AD_Het :: "int list option"
  AD_Het_Test :: "double option"
  BAF_Phase_Test :: "double list option"
  ALLELE_A :: "int option"
  ALLELE_B :: "int option"

definition annots0 :: annots where
  "annots0 =
     \<lparr>GC = None, CpG = None, AC_Het = None, AC_Het_Sex = None, AC_Sex_Test = None,
      AC_Het_Phase = None, AC_Het_Phase_Test = None, Bal = None, Bal_Test = None,
      Bal_Phase = None, Bal_Phase_Test = None, AD_Het = None, AD_Het_Test = None,
      BAF_Phase_Test = None, ALLELE_A = None, ALLELE_B = None\<rparr>"

text \<open>What lives from one record to the next: the binomial table and the two BAF arrays.\<close>

record pstate =
  tab :: binom_tab
  arrs :: "double list list"

text \<open>\<^verbatim>\<open>0.0f - (float)log10(p)\<close>, the form in which every p-value is written.\<close>

definition neg_log10 :: "double \<Rightarrow> double" where
  "neg_log10 p = dsub (Fin 0) (log10 p)"

text \<open>
  The binomial test of a pair of counters, \<^verbatim>\<open>binom_exact(c[0], c[0] + c[1])\<close>. Like the rest
  of \<^verbatim>\<open>process\<close> it is read in the arithmetic of exact reals: the rounding of the table is
  the identity here.
\<close>

definition binom_test :: "kernels \<Rightarrow> int list \<Rightarrow> binom_tab \<Rightarrow> double \<times> binom_tab" where
  "binom_test K c t =
     (case binom_exact (\<lambda>x. x) (binom_dist K) (c ! 0) (wrap32 (c ! 0 + c ! 1)) t of
        (p, t') \<Rightarrow> (neg_log10 p, t'))"

text \<open>The fields written from the counters alone, in the order of the source.\<close>

definition emit_sex :: "kernels \<Rightarrow> args_t \<Rightarrow> agg \<Rightarrow> annots \<Rightarrow> annots" where
  "emit_sex K args g out =
     (if gender_given args then
        out\<lparr>AC_Het_Sex := Some (ac_het_sex g),
            AC_Sex_Test := Some (neg_log10 (kt_fisher_exact K (ac_sex g ! 0) (ac_sex g ! 1)
                                              (ac_sex g ! 2) (ac_sex g ! 3)))\<rparr>
      else out)"

definition emit_phase :: "kernels \<Rightarrow> args_t \<Rightarrow> agg \<Rightarrow> annots \<times> binom_tab \<Rightarrow> annots \<times> binom_tab" where
  "emit_phase K args g ot =
     (case ot of (out, t) \<Rightarrow>
        if phase args then
          (case binom_test K (ac_het_phase g) t of
             (x, t') \<Rightarrow> (out\<lparr>AC_Het_Phase := Some (ac_het_phase g), AC_Het_Phase_Test := Some x\<rparr>, t'))
        else (out, t))"

definition emit_bal :: "kernels \<Rightarrow> args_t \<Rightarrow> agg \<Rightarrow> annots \<times> binom_tab \<Rightarrow> annots \<times> binom_tab" where
  "emit_bal K args g ot =
     (case ot of (out, t) \<Rightarrow>
        if format args then
          (case binom_test K (fmt_bal g) t of
             (x, t1) \<Rightarrow>
               let out1 = out\<lparr>Bal := Some (fmt_bal g), Bal_Test := Some x\<rparr> in
               if phase args then
                 (case binom_test K (fmt_bal_phase g) t1 of
                    (y, t2) \<Rightarrow>
                      (out1\<lparr>Bal_Phase := Some (fmt_bal_phase g), Bal_Phase_Test := Some y\<rparr>, t2))
               else (out1, t1))
        else (out, t))"

definition emit_ad :: "kernels \<Rightarrow> args_t \<Rightarrow> agg \<Rightarrow> annots \<times> binom_tab \<Rightarrow> annots \<times> binom_tab" where
  "emit_ad K args g ot =
     (case ot of (out, t) \<Rightarrow>
        if ad args then
          (case binom_test K (ad_het g) t of
             (x, t') \<Rightarrow> (out\<lparr>AD_Het := Some (ad_het g), AD_Het_Test := Some x\<rparr>, t'))
        else (out, t))"

definition emit_counts :: "kernels \<Rightarrow> args_t \<Rightarrow> agg \<Rightarrow> annots \<times> binom_tab \<Rightarrow> annots \<times> binom_tab" where
  "emit_counts K args g ot =
     (case ot of (out, t) \<Rightarrow>
        emit_ad K args g
          (emit_bal K args g
             (emit_phase K args g (emit_sex K args g (out\<lparr>AC_Het := Some (ac_het g)\<rparr>), t))))"

text \<open>
  The block that writes \<^verbatim>\<open>BAF_Phase_Test\<close>: the four values \<^verbatim>\<open>ret[0..3]\<close> with the two
  arrays as \<^verbatim>\<open>mann_whitney_u\<close> leaves them, or \<open>None\<close> when \<^verbatim>\<open>mann_whitney_u\<close> does not
  return. The arrays hold at least as many values as there are samples.
\<close>

definition sorted_prefix :: "double list \<Rightarrow> double list \<Rightarrow> double list" where
  "sorted_prefix a xs = a @ drop (length a) xs"

definition baf_phase_test ::
  "kernels \<Rightarrow> double list \<Rightarrow> double list \<Rightarrow> (double list \<times> double list \<times> double list) option" where
  "baf_phase_test K a b =
     (let ret0 = get_median K a;
          ret1 = get_median K b;
          ret2 = neg_log10 (welch_t_test (kf_betai K) a b)
      in case mann_whitney_u (kf_erfc K) (mann_whitney_1947_cdf K) a b of
           None \<Rightarrow> None
         | Some (p, a', b') \<Rightarrow> Some ([ret0, ret1, ret2, neg_log10 p], a', b'))"

definition emit_baf_phase ::
  "kernels \<Rightarrow> args_t \<Rightarrow> agg \<Rightarrow> annots \<Rightarrow> (annots \<times> double list list) option" where
  "emit_baf_phase K args g out =
     (if phase args \<and> ac_het_phase g ! 0 \<noteq> 0 \<and> ac_het_phase g ! 1 \<noteq> 0 then
        (case baf_phase_test K (take (nat (ac_het_phase g ! 0)) (baf_arr g ! 0))
                               (take (nat (ac_het_phase g ! 1)) (baf_arr g ! 1)) of
           None \<Rightarrow> None
         | Some (ret, a', b') \<Rightarrow>
             Some (out\<lparr>BAF_Phase_Test := Some ret\<rparr>,
                   [sorted_prefix a' (baf_arr g ! 0), sorted_prefix b' (baf_arr g ! 1)]))
      else Some (out, baf_arr g))"

text \<open>The first block of \<^verbatim>\<open>process\<close>: a failed fetch is fatal.\<close>

definition emit_context :: "args_t \<Rightarrow> bcf1 \<Rightarrow> error + annots" where
  "emit_context args r =
     (if fai args then
        (case fa r of
           None \<Rightarrow> Inl FetchFailed
         | Some w \<Rightarrow> Inr (annots0\<lparr>GC := Some (fst (gc_content w)), CpG := Some (snd (gc_content w))\<rparr>))
      else Inr annots0)"

text \<open>The block guarded by \<^verbatim>\<open>args->infer_baf_alleles\<close>, with the two fields it writes.\<close>

definition emit_alleles :: "kernels \<Rightarrow> args_t \<Rightarrow> bcf1 \<Rightarrow> annots \<Rightarrow> error + annots" where
  "emit_alleles K args r out =
     (if infer_baf_alleles args then
        (case infer_alleles (get_median K) (n_allele r) (smpls r) of
           Inl e \<Rightarrow> Inl e
         | Inr ab \<Rightarrow> Inr (out\<lparr>ALLELE_A := Some (fst ab), ALLELE_B := Some (snd ab)\<rparr>))
      else Inr out)"

text \<open>
  \<^verbatim>\<open>process\<close> on one record: \<open>None\<close> when it does not return, the error when it exits,
  else the INFO fields written with the state left behind. The jumps to \<^verbatim>\<open>ret\<close> are the
  early results; the last one, \<^verbatim>\<open>if (!baf || !lrr) goto ret\<close>, is the \<open>else\<close> branch of the
  test \<open>baf r \<and> lrr r\<close>. The block for \<^verbatim>\<open>Cor_BAF_LRR\<close>, which comes last and writes that
  field only, and the removal of the samples at \<^verbatim>\<open>ret\<close> are not modelled.
\<close>

definition process :: "kernels \<Rightarrow> args_t \<Rightarrow> bcf1 \<Rightarrow> pstate \<Rightarrow> (error + annots \<times> pstate) option" where
  "process K args r st =
     (case emit_context args r of
        Inl e \<Rightarrow> Some (Inl e)
      | Inr out0 \<Rightarrow>
          if smpls r = [] then Some (Inr (out0, st))
          else if \<not> gt_alleles r then Some (Inr (out0, st))
          else
            let g = aggregate args r (arrs st) in
            case emit_counts K args g (out0, tab st) of
              (out1, t1) \<Rightarrow>
                (case emit_baf_phase K args g out1 of
                   None \<Rightarrow> None
                 | Some (out2, arrs2) \<Rightarrow>
                     if baf r \<and> lrr r then
                       (case emit_alleles K args r out2 of
                          Inl e \<Rightarrow> Some (Inl e)
                        | Inr out3 \<Rightarrow> Some (Inr (out3, \<lparr>tab = t1, arrs = arrs2\<rparr>)))
                     else Some (Inr (out2, \<lparr>tab = t1, arrs = arrs2\<rparr>))))"

section \<open>The beta-binomial cache\<close>

text \<open>
  The struct \<^verbatim>\<open>beta_binom_t\<close> is declared in \<^verbatim>\<open>beta_binom.h\<close>; its fields are those that
  \<^verbatim>\<open>beta_binom.c\<close> uses: \<^verbatim>\<open>p\<close>, \<^verbatim>\<open>rho\<close>, \<^verbatim>\<open>n1\<close>, \<^verbatim>\<open>n2\<close> (here with the prefix \<open>self\<close>), the
  three arrays and their capacities. An array is a function from indices to values, of
  which the first \<open>m\<close> belong to the allocation. \<open>stores\<close> is not a field of the source: it
  lists, in order, the array elements that \<^verbatim>\<open>beta_binom_update\<close> has assigned.
\<close>

datatype cache_id = Alpha | Beta | AlphaBeta

record beta_binom_t =
  self_p :: double
  self_rho :: double
  self_n1 :: int
  self_n2 :: int
  log_gamma_alpha :: "nat \<Rightarrow> double"
  log_gamma_beta :: "nat \<Rightarrow> double"
  log_gamma_alpha_beta :: "nat \<Rightarrow> double"
  m_log_gamma_alpha :: nat
  m_log_gamma_beta :: nat
  m_log_gamma_alpha_beta :: nat
  stores :: "(cache_id \<times> nat) list"

text \<open>
  \<^verbatim>\<open>hts_expand(double, n, m, ptr)\<close> of htslib, on the capacity: the allocation grows when
  \<open>n\<close> exceeds it, to the capacity that htslib rounds \<open>n\<close> up to. The rounding is the
  parameter \<open>kroundup\<close>. The content is kept.
\<close>

definition hts_expand :: "(nat \<Rightarrow> nat) \<Rightarrow> int \<Rightarrow> nat \<Rightarrow> nat" where
  "hts_expand kroundup n m = (if n > int m then kroundup (nat n) else m)"

text \<open>
  \<^verbatim>\<open>beta_binom_init\<close>: \<^verbatim>\<open>calloc\<close> and \<^verbatim>\<open>hts_expand0\<close> give three arrays with a first element
  0 and zeroed marks; the parameters are NaN.
\<close>

definition beta_binom_init :: "(nat \<Rightarrow> nat) \<Rightarrow> beta_binom_t" where
  "beta_binom_init kroundup =
     \<lparr>self_p = NaN, self_rho = NaN, self_n1 = 0, self_n2 = 0,
      log_gamma_alpha = (\<lambda>_. Fin 0), log_gamma_beta = (\<lambda>_. Fin 0),
      log_gamma_alpha_beta = (\<lambda>_. Fin 0),
      m_log_gamma_alpha = hts_expand kroundup 1 0, m_log_gamma_beta = hts_expand kroundup 1 0,
      m_log_gamma_alpha_beta = hts_expand kroundup 1 0, stores = []\<rparr>"

text \<open>The first block of \<^verbatim>\<open>beta_binom_update\<close>, under \<^verbatim>\<open>self->p != p || self->rho != rho\<close>.\<close>

definition beta_binom_reset :: "beta_binom_t \<Rightarrow> double \<Rightarrow> double \<Rightarrow> beta_binom_t" where
  "beta_binom_reset self p rho =
     (if dne (self_p self) p \<or> dne (self_rho self) rho
      then self\<lparr>self_p := p, self_rho := rho, self_n1 := 0, self_n2 := 0\<rparr>
      else self)"

text \<open>The three calls of \<^verbatim>\<open>hts_expand\<close>.\<close>

definition beta_binom_expand :: "(nat \<Rightarrow> nat) \<Rightarrow> int \<Rightarrow> int \<Rightarrow> beta_binom_t \<Rightarrow> beta_binom_t" where
  "beta_binom_expand kroundup n1 n2 self =
     self\<lparr>m_log_gamma_alpha := hts_expand kroundup (n1 + 1) (m_log_gamma_alpha self),
          m_log_gamma_beta := hts_expand kroundup (n1 + 1) (m_log_gamma_beta self),
          m_log_gamma_alpha_beta := hts_expand kroundup (n2 + 1) (m_log_gamma_alpha_beta self)\<rparr>"

text \<open>
  The two shapes of loop, each with its body. \<^verbatim>\<open>while (self->n1 < n1)\<close> advances \<^verbatim>\<open>self->n1\<close> and assigns the
  element of that index in the first two arrays from the element before it; \<open>f_alpha\<close> and
  \<open>f_beta\<close> give the new values from the index and the element before. \<^verbatim>\<open>while (self->n2 < n2)\<close>
  does the same on the third array.
\<close>

definition step_n1 ::
  "(int \<Rightarrow> double \<Rightarrow> double) \<Rightarrow> (int \<Rightarrow> double \<Rightarrow> double) \<Rightarrow> beta_binom_t \<Rightarrow> beta_binom_t" where
  "step_n1 f_alpha f_beta self =
     (let n = self_n1 self + 1 in
      self\<lparr>self_n1 := n,
           log_gamma_alpha :=
             (log_gamma_alpha self)(nat n := f_alpha n (log_gamma_alpha self (nat (n - 1)))),
           log_gamma_beta :=
             (log_gamma_beta self)(nat n := f_beta n (log_gamma_beta self (nat (n - 1)))),
           stores := stores self @ [(Alpha, nat n), (Beta, nat n)]\<rparr>)"

function loop_n1 ::
  "(int \<Rightarrow> double \<Rightarrow> double) \<Rightarrow> (int \<Rightarrow> double \<Rightarrow> double) \<Rightarrow> int \<Rightarrow> beta_binom_t \<Rightarrow> beta_binom_t" where
  "loop_n1 f_alpha f_beta n1 self =
     (if self_n1 self < n1 then loop_n1 f_alpha f_beta n1 (step_n1 f_alpha f_beta self)
      else self)"
  by pat_completeness auto
termination
  by (relation "measure (\<lambda>(f_alpha, f_beta, n1, self). nat (n1 - self_n1 self))")
     (auto simp: step_n1_def Let_def)

definition step_n2 :: "(int \<Rightarrow> double \<Rightarrow> double) \<Rightarrow> beta_binom_t \<Rightarrow> beta_binom_t" where
  "step_n2 f_ab self =
     (let n = self_n2 self + 1 in
      self\<lparr>self_n2 := n,
           log_gamma_alpha_beta :=
             (log_gamma_alpha_beta self)
               (nat n := f_ab n (log_gamma_alpha_beta self (nat (n - 1)))),
           stores := stores self @ [(AlphaBeta, nat n)]\<rparr>)"

function loop_n2 :: "(int \<Rightarrow> double \<Rightarrow> double) \<Rightarrow> int \<Rightarrow> beta_binom_t \<Rightarrow> beta_binom_t" where
  "loop_n2 f_ab n2 self =
     (if self_n2 self < n2 then loop_n2 f_ab n2 (step_n2 f_ab self) else self)"
  by pat_completeness auto
termination
  by (relation "measure (\<lambda>(f_ab, n2, self). nat (n2 - self_n2 self))")
     (auto simp: step_n2_def Let_def)

text \<open>The two branches after the reallocation: \<^verbatim>\<open>rho == 0\<close>, and the rest.\<close>

definition fill_binomial :: "double \<Rightarrow> int \<Rightarrow> int \<Rightarrow> beta_binom_t \<Rightarrow> beta_binom_t" where
  "fill_binomial p n1 n2 self =
     (let log_alpha = dlog p;
          log_beta = dlog (dsub (Fin 1) p)
      in loop_n2 (\<lambda>i prev. dsub prev (dlog (of_int_d i))) n2
           (loop_n1 (\<lambda>i prev. dsub (dadd prev log_alpha) (dlog (of_int_d i)))
                    (\<lambda>i prev. dsub (dadd prev log_beta) (dlog (of_int_d i))) n1 self))"

definition fill_beta :: "double \<Rightarrow> double \<Rightarrow> int \<Rightarrow> int \<Rightarrow> beta_binom_t \<Rightarrow> beta_binom_t" where
  "fill_beta p rho n1 n2 self =
     (let s = ddiv (dsub (Fin 1) rho) rho;
          alpha = dmul p s;
          beta = dmul (dsub (Fin 1) p) s
      in loop_n2 (\<lambda>i prev.
                    dadd prev (dlog (ddiv (dsub (dadd (dadd alpha beta) (of_int_d i)) (Fin 1))
                                          (of_int_d i)))) n2
           (loop_n1 (\<lambda>i prev.
                       dadd prev (dlog (ddiv (dsub (dadd alpha (of_int_d i)) (Fin 1)) (of_int_d i))))
                    (\<lambda>i prev.
                       dadd prev (dlog (ddiv (dsub (dadd beta (of_int_d i)) (Fin 1)) (of_int_d i))))
                    n1 self))"

definition beta_binom_update ::
  "(nat \<Rightarrow> nat) \<Rightarrow> beta_binom_t \<Rightarrow> double \<Rightarrow> double \<Rightarrow> int \<Rightarrow> int \<Rightarrow> beta_binom_t" where
  "beta_binom_update kroundup self p rho n1 n2 =
     (let self1 = beta_binom_expand kroundup n1 n2 (beta_binom_reset self p rho)
      in if deq rho (Fin 0) then fill_binomial p n1 n2 self1 else fill_beta p rho n1 n2 self1)"

text \<open>A run of calls with the same parameters, for the pairs \<open>(n1, n2)\<close> of a list.\<close>

definition beta_binom_updates ::
  "(nat \<Rightarrow> nat) \<Rightarrow> beta_binom_t \<Rightarrow> double \<Rightarrow> double \<Rightarrow> (int \<times> int) list \<Rightarrow> beta_binom_t" where
  "beta_binom_updates kroundup self p rho ns =
     foldl (\<lambda>s n. beta_binom_update kroundup s p rho (fst n) (snd n)) self ns"

section \<open>Worked inputs\<close>

text \<open>
  Modelled from the spec: \<^verbatim>\<open>get_median\<close> of \<^verbatim>\<open>mocha.h\<close> is not in the source. The spec
  describes it as the median by selection, the average of the two middle values for an even
  number of values; no value at all is taken to give a NaN. It is used for the worked
  inputs only, where it is the \<^verbatim>\<open>get_median\<close> of the kernels.
\<close>

definition median_of :: "double list \<Rightarrow> double" where
  "median_of xs =
     (let ys = qsort xs; n = length ys in
      if n = 0 then NaN
      else if even n then ddiv (dadd (ys ! (n div 2 - 1)) (ys ! (n div 2))) (Fin 2)
      else ys ! (n div 2))"

text \<open>
  Kernels for the worked inputs. None of the worked inputs reaches the external kernels
  other than \<^verbatim>\<open>get_median\<close>; they are given constant results.
\<close>

definition kernels_ex :: kernels where
  "kernels_ex =
     \<lparr>binom_dist = (\<lambda>n p k. NaN), mann_whitney_1947_cdf = (\<lambda>n m u. 0),
      kf_betai = (\<lambda>a b x. NaN), kf_erfc = (\<lambda>x. NaN),
      kt_fisher_exact = (\<lambda>a b c d. NaN), get_median = median_of\<rparr>"

text \<open>A sample with a genotype, a phase and a BAF value, and nothing else of interest.\<close>

definition smp :: "int \<Rightarrow> int \<Rightarrow> int \<Rightarrow> double \<Rightarrow> sample" where
  "smp g0 g1 ph b =
     \<lparr>gt_phase_arr = ph, fmt_sign_arr = bcf_int8_missing, gt0_arr = g0, gt1_arr = g1,
      ad0_arr = 0, ad1_arr = 0, baf_p = b, lrr_p = Fin 0, gender = 0\<rparr>"

text \<open>A record of two alleles with GT, BAF and LRR present, and no reference window.\<close>

definition rec_ex :: "sample list \<Rightarrow> bcf1" where
  "rec_ex ss =
     \<lparr>fa = None, n_allele = 2, gt_phase = True, gt_alleles = True, fmt_sign = False,
      ad_fmt = False, baf = True, lrr = True, smpls = ss\<rparr>"

definition args_infer :: args_t where
  "args_infer =
     \<lparr>phase = False, ad = False, format = False, gender_given = False, fai = False,
      infer_baf_alleles = True\<rparr>"

definition args_phase :: args_t where
  "args_phase =
     \<lparr>phase = True, ad = False, format = False, gender_given = False, fai = False,
      infer_baf_alleles = False\<rparr>"

text \<open>The state before a record, both arrays holding \<open>n\<close> values left by earlier records.\<close>

definition pstate_ex :: "nat \<Rightarrow> pstate" where
  "pstate_ex n = \<lparr>tab = binom_tab0, arrs = [replicate n (Fin 0.9), replicate n (Fin 0.9)]\<rparr>"

text \<open>Two samples homozygous for allele 0 and two homozygous for allele 1.\<close>

definition smpls_hom :: "sample list" where
  "smpls_hom =
     [smp 0 0 bcf_int8_missing (Fin 0.2), smp 0 0 bcf_int8_missing (Fin 0.3),
      smp 1 1 bcf_int8_missing (Fin 0.8), smp 1 1 bcf_int8_missing (Fin 0.7)]"

text \<open>One sample of each phase, and one phased heterozygous sample whose BAF is a NaN.\<close>

definition smpls_one_each :: "sample list" where
  "smpls_one_each = [smp 0 1 1 (Fin 0.5), smp 1 0 (- 1) (Fin 0.25)]"

definition smpls_nan :: "sample list" where
  "smpls_nan = [smp 0 1 1 NaN]"

text \<open>A record without samples and with a fetched window, and the options to scan it.\<close>

definition rec_win :: "string \<Rightarrow> bcf1" where
  "rec_win w = (rec_ex [])\<lparr>fa := Some w\<rparr>"

definition args_fai :: args_t where
  "args_fai =
     \<lparr>phase = False, ad = False, format = False, gender_given = False, fai = True,
      infer_baf_alleles = False\<rparr>"

text \<open>A cache filled to the marks 2 and 1 for the parameters 0.5 and 0.\<close>

definition cache_ex :: beta_binom_t where
  "cache_ex = beta_binom_update id (beta_binom_init id) (Fin 0.5) (Fin 0) 2 1"

section \<open>Invariants\<close>

text \<open>
  The elements that the two loops assign when they start at the marks \<open>a\<close> and run to \<open>n\<close>,
  in the order of the assignments.
\<close>

definition stores_n1 :: "int \<Rightarrow> int \<Rightarrow> (cache_id \<times> nat) list" where
  "stores_n1 a n = concat (map (\<lambda>i. [(Alpha, nat i), (Beta, nat i)]) [a + 1..n])"

definition stores_n2 :: "int \<Rightarrow> int \<Rightarrow> (cache_id \<times> nat) list" where
  "stores_n2 a n = map (\<lambda>i. (AlphaBeta, nat i)) [a + 1..n]"

text \<open>
  The mark up to which an array is filled, and the invariant of a run of calls with the
  parameters \<open>p\<close> and \<open>rho\<close>: \<open>new\<close> are the elements assigned since the run began.
\<close>

fun hwm :: "beta_binom_t \<Rightarrow> cache_id \<Rightarrow> int" where
  "hwm s Alpha = self_n1 s"
| "hwm s Beta = self_n1 s"
| "hwm s AlphaBeta = self_n2 s"

definition cache_inv :: "(cache_id \<times> nat) list \<Rightarrow> beta_binom_t \<Rightarrow> double \<Rightarrow> double \<Rightarrow> bool" where
  "cache_inv new s p rho =
     (distinct new \<and> 0 \<le> self_n1 s \<and> 0 \<le> self_n2 s \<and>
      list_all (\<lambda>cj. int (snd cj) \<le> hwm s (fst cj)) new \<and>
      (new = [] \<or> (self_p s = p \<and> self_rho s = rho)))"

text \<open>Of the loop over the samples: no more stores into an array than its counter says.\<close>

definition stored_inv :: "agg \<Rightarrow> bool" where
  "stored_inv g =
     (length (ac_het_phase g) = 2 \<and> length (n_stored g) = 2 \<and>
      int (n_stored g ! 0) \<le> ac_het_phase g ! 0 \<and> int (n_stored g ! 1) \<le> ac_het_phase g ! 1)"

text \<open>The bytes that the scan counts in \<^verbatim>\<open>at_cnt\<close> and in \<^verbatim>\<open>cg_cnt\<close>.\<close>

definition is_at :: "char \<Rightarrow> bool" where
  "is_at c = (upper c = CHR ''A'' \<or> upper c = CHR ''T'')"

definition is_cg :: "char \<Rightarrow> bool" where
  "is_cg c = (upper c = CHR ''C'' \<or> upper c = CHR ''G'')"

text \<open>
  The entries of the binomial table. Row \<open>i \<ge> 1\<close> holds the columns \<open>j < (i + 1) div 2\<close> from
  the index \<open>1 + (i div 2) \<sqdot> ((i + 1) div 2)\<close> on, and row 0 is the element 0. \<open>dbinom_entry\<close>
  and \<open>pbinom_entry\<close> are the values that the loops compute for the entry \<open>(i, j)\<close> of the two
  arrays, \<open>C(i, j) / 2\<^sup>i\<close> and its partial sums over \<open>j\<close> when nothing is rounded.
  \<open>table_inv\<close> says that the rows up to \<open>n\<close> of two arrays hold them.
\<close>

definition binom_idx :: "nat \<Rightarrow> nat \<Rightarrow> nat" where
  "binom_idx i j = (if i = 0 then 0 else 1 + (i div 2) * ((i + 1) div 2) + j)"

fun dbinom_entry :: "(real \<Rightarrow> real) \<Rightarrow> nat \<Rightarrow> nat \<Rightarrow> real" where
  "dbinom_entry rnd 0 j = 1"
| "dbinom_entry rnd (Suc i) 0 = rnd (dbinom_entry rnd i 0 * 0.5)"
| "dbinom_entry rnd (Suc i) (Suc j) =
     rnd (rnd (rnd (real (Suc i) / real (Suc j)) * dbinom_entry rnd i j) * 0.5)"

fun pbinom_entry :: "(real \<Rightarrow> real) \<Rightarrow> nat \<Rightarrow> nat \<Rightarrow> real" where
  "pbinom_entry rnd i 0 = dbinom_entry rnd i 0"
| "pbinom_entry rnd i (Suc j) = rnd (pbinom_entry rnd i j + dbinom_entry rnd i (Suc j))"

definition table_inv :: "(real \<Rightarrow> real) \<Rightarrow> nat \<Rightarrow> (nat \<Rightarrow> real) \<Rightarrow> (nat \<Rightarrow> real) \<Rightarrow> bool" where
  "table_inv rnd n d p =
     (d 0 = 1 \<and>
      (\<forall>i j. 1 \<le> i \<and> i \<le> n \<and> j < (i + 1) div 2 \<longrightarrow>
         d (binom_idx i j) = dbinom_entry rnd i j \<and> p (binom_idx i j) = pbinom_entry rnd i j))"

text \<open>
  Tie groups of two samples. A tie group is a value \<open>v\<close> with its multiplicities \<open>c\<^sub>a\<close> and
  \<open>c\<^sub>b\<close> in the two samples, and \<open>t = c\<^sub>a + c\<^sub>b\<close>; its term is \<open>t\<^sup>3 - t\<close>, which the code
  writes \<^verbatim>\<open>(sq(tie) - 1.0) * tie\<close>. \<open>ties_pooled\<close> is the sum over all the values of the pooled
  data, the textbook correction; \<open>ties_shared\<close> is the sum over the values that occur in both
  samples. \<open>no_nan\<close> says that a sample holds no NaN.
\<close>

definition tie_term :: "nat \<Rightarrow> real" where
  "tie_term t = ((real t)\<^sup>2 - 1) * real t"

definition ties_pooled :: "double list \<Rightarrow> double list \<Rightarrow> real" where
  "ties_pooled a b = (\<Sum>v\<in>set a \<union> set b. tie_term (count_list a v + count_list b v))"

definition ties_shared :: "double list \<Rightarrow> double list \<Rightarrow> real" where
  "ties_shared a b = (\<Sum>v\<in>set a \<inter> set b. tie_term (count_list a v + count_list b v))"

definition no_nan :: "double list \<Rightarrow> bool" where
  "no_nan xs = list_all (\<lambda>x. \<not> isnan x) xs"

section \<open>Properties of the allele inference\<close>

lemma infer_alleles_cases:
  assumes "infer_alleles gm n ss = Inr (a, b)"
  shows "n \<in> {1, 2, 3} \<and> - 1 \<le> a \<and> a < n \<and> - 1 \<le> b \<and> b < n \<and> (a = b \<longrightarrow> a = - 1)"
  using assms
  by (auto simp: infer_alleles_def candidate_alleles_def resolve_alleles_def median_class_def
           split: if_splits)

text \<open>The blocks before the inference leave the two allele fields unwritten.\<close>

lemma emit_context_alleles:
  "emit_context args r = Inr out \<Longrightarrow>
   ALLELE_A out = None \<and> ALLELE_B out = None \<and> BAF_Phase_Test out = None"
  by (auto simp: emit_context_def annots0_def split: if_splits option.splits)

lemma emit_counts_alleles:
  "emit_counts K args g (out, t) = (out', t') \<Longrightarrow>
   ALLELE_A out' = ALLELE_A out \<and> ALLELE_B out' = ALLELE_B out \<and>
   BAF_Phase_Test out' = BAF_Phase_Test out"
  by (auto simp: emit_counts_def emit_ad_def emit_bal_def emit_phase_def emit_sex_def Let_def
           split: if_splits prod.splits)

lemma emit_baf_phase_alleles:
  "emit_baf_phase K args g out = Some (out', a) \<Longrightarrow>
   ALLELE_A out' = ALLELE_A out \<and> ALLELE_B out' = ALLELE_B out"
  by (auto simp: emit_baf_phase_def split: if_splits option.splits)

text \<open>
  An allele field is written only by the inference block, and that block is reached only
  past the jump taken when BAF or LRR is absent.
\<close>

lemma process_alleles_written:
  assumes "process K args r st = Some (Inr (out, st'))"
    and "ALLELE_A out = Some a \<or> ALLELE_B out = Some b"
  shows "infer_baf_alleles args \<and> baf r \<and> lrr r \<and> gt_alleles r \<and> smpls r \<noteq> [] \<and>
         (\<exists>ab. infer_alleles (get_median K) (n_allele r) (smpls r) = Inr ab \<and>
            ALLELE_A out = Some (fst ab) \<and> ALLELE_B out = Some (snd ab))"
  using assms
  apply (simp add: process_def Let_def split: sum.splits if_splits prod.splits option.splits)
  apply (auto dest!: emit_context_alleles emit_counts_alleles emit_baf_phase_alleles
      simp: emit_alleles_def split: if_splits sum.splits)
  done

text \<open>The worked record with four homozygous samples.\<close>

lemma aggregate_hom: "aggregate args_infer (rec_ex smpls_hom) xs = agg0 xs"
  by (simp add: aggregate_def rec_ex_def smpls_hom_def smp_def aggregate_step_def
      bcf_int16_missing_def bcf_int8_missing_def count_all_def args_infer_def Let_def)

lemma median_lo: "median_of (hom_bafs 0 smpls_hom) = Fin 0.25"
  by (simp add: median_of_def hom_bafs_def smpls_hom_def smp_def qsort_def cmpfunc_def Let_def)

lemma median_hi: "median_of (hom_bafs 1 smpls_hom) = Fin 0.75"
  by (simp add: median_of_def hom_bafs_def smpls_hom_def smp_def qsort_def cmpfunc_def Let_def)

lemma infer_hom: "infer_alleles median_of 2 smpls_hom = Inr (0, 1)"
  by (simp add: infer_alleles_def candidate_alleles_def median_lo median_hi median_class_def
      resolve_alleles_def)

lemma process_hom:
  "process kernels_ex args_infer (rec_ex smpls_hom) (pstate_ex 4) =
     Some (Inr (annots0\<lparr>AC_Het := Some 0, ALLELE_A := Some 0, ALLELE_B := Some 1\<rparr>,
                pstate_ex 4))"
  apply (simp add: process_def aggregate_hom emit_context_def Let_def)
  apply (simp add: args_infer_def rec_ex_def emit_counts_def emit_sex_def emit_phase_def
      emit_bal_def emit_ad_def emit_baf_phase_def emit_alleles_def kernels_ex_def infer_hom
      agg0_def pstate_ex_def)
  apply (simp add: smpls_hom_def)
  done

text \<open>
  C7. Whenever \<^verbatim>\<open>process\<close> writes \<^verbatim>\<open>ALLELE_A\<close> and \<^verbatim>\<open>ALLELE_B\<close>, each of the two values is
  \<open>-1\<close> or an allele index below \<^verbatim>\<open>n_allele\<close>, the two values are equal only when both are
  \<open>-1\<close>, and two non-negative values differ. This holds whatever \<^verbatim>\<open>get_median\<close> returns.
\<close>

theorem process_alleles_range:
  assumes "process K args r st = Some (Inr (out, st'))"
    and "ALLELE_A out = Some a" and "ALLELE_B out = Some b"
  shows "a \<in> {- 1..n_allele r - 1} \<and> b \<in> {- 1..n_allele r - 1} \<and>
         (a = b \<longrightarrow> a = - 1) \<and> (0 \<le> a \<and> 0 \<le> b \<longrightarrow> a \<noteq> b)"
proof -
  from process_alleles_written [OF assms(1), of a b] assms(2,3)
  have "infer_alleles (get_median K) (n_allele r) (smpls r) = Inr (a, b)"
    by auto
  from infer_alleles_cases [OF this] show ?thesis
    by auto
qed

theorem process_alleles_range_witness:
  "process kernels_ex args_infer (rec_ex smpls_hom) (pstate_ex 4) =
     Some (Inr (annots0\<lparr>AC_Het := Some 0, ALLELE_A := Some 0, ALLELE_B := Some 1\<rparr>,
                pstate_ex 4)) \<and>
   (0::int) \<in> {- 1..n_allele (rec_ex smpls_hom) - 1} \<and>
   (1::int) \<in> {- 1..n_allele (rec_ex smpls_hom) - 1} \<and> (0::int) \<noteq> 1"
  using process_alleles_range [OF process_hom, of 0 1] process_hom
  by (simp add: rec_ex_def)

text \<open>
  C6. The claim is that with inference enabled, \<^verbatim>\<open>n_allele\<close> in 1 to 3 and GT and BAF
  present the two allele fields are written. On the worked record with four homozygous
  samples, inference enabled, two alleles, GT and BAF present and only LRR absent,
  \<^verbatim>\<open>process\<close> takes the jump \<^verbatim>\<open>if (!baf || !lrr) goto ret\<close> and writes neither field.
\<close>

theorem process_without_lrr:
  "process kernels_ex args_infer ((rec_ex smpls_hom)\<lparr>lrr := False\<rparr>) (pstate_ex 4) =
     Some (Inr (annots0\<lparr>AC_Het := Some 0\<rparr>, pstate_ex 4))"
proof -
  have agg: "aggregate args_infer ((rec_ex smpls_hom)\<lparr>lrr := False\<rparr>) xs = agg0 xs" for xs
    by (simp add: aggregate_def rec_ex_def smpls_hom_def smp_def aggregate_step_def
        bcf_int16_missing_def bcf_int8_missing_def count_all_def args_infer_def Let_def)
  show ?thesis
    apply (simp add: process_def agg emit_context_def Let_def)
    apply (simp add: args_infer_def rec_ex_def emit_counts_def emit_sex_def emit_phase_def
        emit_bal_def emit_ad_def emit_baf_phase_def agg0_def pstate_ex_def)
    apply (simp add: smpls_hom_def)
    done
qed

section \<open>Properties of the aggregation\<close>

lemma count_all_phase [simp]:
  "ac_het_phase (count_all args r i s g) = ac_het_phase g"
  "n_stored (count_all args r i s g) = n_stored g"
  by (simp_all add: count_all_def Let_def)

lemma count_all_inv: "stored_inv (count_all args r i s g) = stored_inv g"
  by (simp add: stored_inv_def)

lemma count_het_counters_phase:
  "ac_het_phase (count_het_counters args r i s g) =
     (if idx_gt_phase r s \<ge> 0 then bump (idx_gt_phase r s) 1 (ac_het_phase g)
      else ac_het_phase g)"
  "n_stored (count_het_counters args r i s g) = n_stored g"
  by (simp_all add: count_het_counters_def Let_def)

lemma idx_gt_phase_cases: "idx_gt_phase r s = - 1 \<or> idx_gt_phase r s = 0 \<or> idx_gt_phase r s = 1"
  by (auto simp: idx_gt_phase_def cdiv_def)

lemma count_het_inv:
  assumes "stored_inv g"
  shows "stored_inv (count_het args r i s g)"
proof -
  consider "idx_gt_phase r s = - 1" | "idx_gt_phase r s = 0" | "idx_gt_phase r s = 1"
    using idx_gt_phase_cases by blast
  then show ?thesis
  proof cases
    case 1
    with assms show ?thesis
      by (simp add: count_het_def store_baf_def stored_inv_def count_het_counters_phase)
  next
    case 2
    with assms show ?thesis
      by (simp add: count_het_def store_baf_def stored_inv_def count_het_counters_phase
          bump_def)
  next
    case 3
    with assms show ?thesis
      by (simp add: count_het_def store_baf_def stored_inv_def count_het_counters_phase
          bump_def)
  qed
qed

lemma aggregate_step_inv: "stored_inv g \<Longrightarrow> stored_inv (aggregate_step args r g s)"
  by (simp add: aggregate_step_def Let_def count_het_inv count_all_inv)

lemma foldl_aggregate_inv: "stored_inv g \<Longrightarrow> stored_inv (foldl (aggregate_step args r) g ss)"
  by (induction ss arbitrary: g) (simp_all add: aggregate_step_inv)

text \<open>What does hold of every record: the stores never outnumber the counted samples.\<close>

lemma aggregate_stored_le:
  "int (n_stored (aggregate args r xs) ! 0) \<le> ac_het_phase (aggregate args r xs) ! 0 \<and>
   int (n_stored (aggregate args r xs) ! 1) \<le> ac_het_phase (aggregate args r xs) ! 1"
proof -
  have "stored_inv (agg0 xs)"
    by (simp add: stored_inv_def agg0_def)
  then have "stored_inv (aggregate args r xs)"
    unfolding aggregate_def by (rule foldl_aggregate_inv)
  then show ?thesis
    by (simp add: stored_inv_def)
qed

text \<open>
  C1. The claim is that the number of values stored into \<^verbatim>\<open>baf_arr[k]\<close> equals the final
  \<^verbatim>\<open>ac_het_phase[k]\<close>. On a record with one sample of genotype \<open>0|1\<close> whose BAF is a NaN
  the loop counts the sample in \<^verbatim>\<open>ac_het_phase[0]\<close> and stores nothing: the array keeps
  the value an earlier record left in its first slot.
\<close>

theorem aggregate_nan_baf:
  "ac_het_phase (aggregate args_phase (rec_ex smpls_nan) [[Fin 0.9], [Fin 0.9]]) = [1, 0] \<and>
   n_stored (aggregate args_phase (rec_ex smpls_nan) [[Fin 0.9], [Fin 0.9]]) = [0, 0] \<and>
   baf_arr (aggregate args_phase (rec_ex smpls_nan) [[Fin 0.9], [Fin 0.9]]) =
     [[Fin 0.9], [Fin 0.9]]"
  by (simp add: aggregate_def rec_ex_def smpls_nan_def smp_def aggregate_step_def
      bcf_int16_missing_def bcf_int8_missing_def count_all_def count_het_def count_het_counters_def store_baf_def
      curr_baf_def idx_gt_phase_def idx_fmt_phase_def args_phase_def
      Let_def agg0_def cdiv_def bump_def)

section \<open>Properties of the test battery\<close>

lemma aggregate_one_each:
  "aggregate args_phase (rec_ex smpls_one_each) [[x0, x1], [y0, y1]] =
     (agg0 [[Fin 0.5, x1], [Fin 0.25, y1]])
       \<lparr>ac_het := 2, ac_het_phase := [1, 1], n_stored := [1, 1]\<rparr>"
  by (simp add: aggregate_def rec_ex_def smpls_one_each_def smp_def aggregate_step_def
      bcf_int16_missing_def bcf_int8_missing_def count_all_def count_het_def count_het_counters_def store_baf_def
      curr_baf_def idx_gt_phase_def idx_fmt_phase_def args_phase_def
      Let_def agg0_def cdiv_def bump_def)

lemma welch_short: "length a < 2 \<or> length b < 2 \<Longrightarrow> welch_t_test f a b = HUGE_VAL"
  by (auto simp: welch_t_test_def)

lemma neg_log10_huge: "neg_log10 HUGE_VAL = MInf"
  by (simp add: neg_log10_def HUGE_VAL_def dsub_def)

lemma mwu_one_each:
  "y < x \<Longrightarrow> mann_whitney_u f c [Fin x] [Fin y] = Some (Fin 1, [Fin x], [Fin y])"
  by (simp add: mann_whitney_u_def qsort_def mwu_walk.simps deq_def mwu_pvalue_def HUGE_VAL_def
      Let_def)

lemma process_one_each:
  "process kernels_ex args_phase (rec_ex smpls_one_each) (pstate_ex 2) =
     Some (Inr (annots0\<lparr>AC_Het := Some 2, AC_Het_Phase := Some [1, 1],
                  AC_Het_Phase_Test := Some (Fin 0),
                  BAF_Phase_Test := Some [Fin 0.5, Fin 0.25, MInf, Fin 0]\<rparr>,
                \<lparr>tab = binom_tab0, arrs = [[Fin 0.5, Fin 0.9], [Fin 0.25, Fin 0.9]]\<rparr>))"
  apply (simp add: process_def emit_context_def Let_def pstate_ex_def numeral_2_eq_2
      aggregate_one_each)
  apply (simp add: args_phase_def rec_ex_def emit_counts_def emit_sex_def emit_phase_def
      emit_bal_def emit_ad_def emit_baf_phase_def emit_alleles_def kernels_ex_def
      agg0_def binom_test_def wrap32_def binom_exact_def neg_log10_def dsub_def
      baf_phase_test_def
      welch_short mwu_one_each median_of_def qsort_def sorted_prefix_def HUGE_VAL_def)
  apply (simp add: smpls_one_each_def)
  done

text \<open>The four values of \<^verbatim>\<open>BAF_Phase_Test\<close>, when written, are those of the block.\<close>

lemma process_baf_phase_test:
  assumes "process K args r st = Some (Inr (out, st'))" and "BAF_Phase_Test out = Some ret"
  shows "\<exists>a' b'. baf_phase_test K
            (take (nat (ac_het_phase (aggregate args r (arrs st)) ! 0))
               (baf_arr (aggregate args r (arrs st)) ! 0))
            (take (nat (ac_het_phase (aggregate args r (arrs st)) ! 1))
               (baf_arr (aggregate args r (arrs st)) ! 1))
          = Some (ret, a', b')"
  using assms
  apply (simp add: process_def Let_def split: sum.splits if_splits prod.splits option.splits)
   apply (auto dest!: emit_context_alleles emit_counts_alleles
      simp: emit_alleles_def emit_baf_phase_def split: if_splits sum.splits option.splits)
  done

text \<open>
  C5, as stated, fails. On the worked record with one sample of each phase
  \<^verbatim>\<open>BAF_Phase_Test\<close> is written, \<^verbatim>\<open>welch_t_test\<close> returns \<^verbatim>\<open>HUGE_VAL\<close> because each array
  holds one value, and the entry written for it is minus infinity, not \<^verbatim>\<open>HUGE_VAL\<close>.
\<close>

theorem welch_sentinel_not_verbatim:
  "process kernels_ex args_phase (rec_ex smpls_one_each) (pstate_ex 2) =
     Some (Inr (annots0\<lparr>AC_Het := Some 2, AC_Het_Phase := Some [1, 1],
                  AC_Het_Phase_Test := Some (Fin 0),
                  BAF_Phase_Test := Some [Fin 0.5, Fin 0.25, MInf, Fin 0]\<rparr>,
                \<lparr>tab = binom_tab0, arrs = [[Fin 0.5, Fin 0.9], [Fin 0.25, Fin 0.9]]\<rparr>)) \<and>
   welch_t_test (kf_betai kernels_ex) [Fin 0.5] [Fin 0.25] = HUGE_VAL \<and>
   [Fin 0.5, Fin 0.25, MInf, Fin 0] ! 2 \<noteq> HUGE_VAL"
  using process_one_each by (simp add: welch_short HUGE_VAL_def)

text \<open>
  C5, amended. Whenever \<^verbatim>\<open>BAF_Phase_Test\<close> is written and \<^verbatim>\<open>welch_t_test\<close> returns the
  sentinel \<^verbatim>\<open>HUGE_VAL\<close> on the two arrays, the entry written for it is
  \<^verbatim>\<open>0.0f - (float)log10(HUGE_VAL)\<close>, which is minus infinity.
\<close>

theorem process_welch_sentinel:
  assumes "process K args r st = Some (Inr (out, st'))" and "BAF_Phase_Test out = Some ret"
    and "welch_t_test (kf_betai K)
           (take (nat (ac_het_phase (aggregate args r (arrs st)) ! 0))
              (baf_arr (aggregate args r (arrs st)) ! 0))
           (take (nat (ac_het_phase (aggregate args r (arrs st)) ! 1))
              (baf_arr (aggregate args r (arrs st)) ! 1)) = HUGE_VAL"
  shows "ret ! 2 = neg_log10 HUGE_VAL \<and> ret ! 2 = MInf"
  using process_baf_phase_test [OF assms(1,2)] assms(3)
  by (auto simp: baf_phase_test_def Let_def neg_log10_huge split: option.splits)

theorem process_welch_sentinel_witness:
  "process kernels_ex args_phase (rec_ex smpls_one_each) (pstate_ex 2) =
     Some (Inr (annots0\<lparr>AC_Het := Some 2, AC_Het_Phase := Some [1, 1],
                  AC_Het_Phase_Test := Some (Fin 0),
                  BAF_Phase_Test := Some [Fin 0.5, Fin 0.25, MInf, Fin 0]\<rparr>,
                \<lparr>tab = binom_tab0, arrs = [[Fin 0.5, Fin 0.9], [Fin 0.25, Fin 0.9]]\<rparr>)) \<and>
   [Fin 0.5, Fin 0.25, MInf, Fin 0] ! 2 = MInf"
  using process_welch_sentinel [OF process_one_each, of "[Fin 0.5, Fin 0.25, MInf, Fin 0]"]
    process_one_each
  by simp

section \<open>Properties of the sequence context\<close>

text \<open>
  The loop over the window, from any state: the two base counts, and the CpG count, which
  grows by at most the number of bytes read, by one less when the last byte read is a C.
\<close>

lemma gc_fold:
  "foldl gc_step (prev, at_cnt, cg_cnt, cpg_cnt) w = (prev', at', cg', cpg') \<Longrightarrow>
   at' = at_cnt + int (length (filter is_at w)) \<and>
   cg' = cg_cnt + int (length (filter is_cg w)) \<and>
   cpg_cnt \<le> cpg' \<and>
   cpg' + (if prev' = Some (CHR ''C'') then 1 else 0)
     \<le> cpg_cnt + (if prev = Some (CHR ''C'') then 1 else 0) + int (length w)"
proof (induction w arbitrary: prev at_cnt cg_cnt cpg_cnt)
  case Nil
  then show ?case by simp
next
  case (Cons c w)
  obtain p1 a1 g1 q1 where st: "gc_step (prev, at_cnt, cg_cnt, cpg_cnt) c = (p1, a1, g1, q1)"
    by (cases "gc_step (prev, at_cnt, cg_cnt, cpg_cnt) c") auto
  from Cons.prems st have "foldl gc_step (p1, a1, g1, q1) w = (prev', at', cg', cpg')"
    by simp
  from Cons.IH [OF this] st show ?case
    by (auto simp: gc_step_def Let_def is_at_def is_cg_def split: if_splits)
qed

lemma gc_counts_eq:
  assumes "gc_counts w = (a, g, q)"
  shows "a = int (length (filter is_at w)) \<and> g = int (length (filter is_cg w)) \<and>
         0 \<le> q \<and> q \<le> int (length w)"
proof -
  obtain p' where "foldl gc_step (None, 0, 0, 0) w = (p', a, g, q)"
    using assms by (cases "foldl gc_step (None, 0, 0, 0) w") (auto simp: gc_counts_def)
  from gc_fold [OF this] show ?thesis
    by (auto split: if_splits)
qed

lemma gc_content_bounds:
  assumes "\<exists>c\<in>set w. is_at c \<or> is_cg c"
  shows "\<exists>x y. gc_content w = (Fin x, Fin y) \<and> 0 \<le> x \<and> x \<le> 1 \<and> 0 \<le> y \<and> y \<le> 1 \<and>
           x = real_of_int (fst (snd (gc_counts w))) /
               real_of_int (fst (gc_counts w) + fst (snd (gc_counts w))) \<and>
           y = real_of_int (snd (snd (gc_counts w))) / real (length w)"
proof -
  obtain a g q where c: "gc_counts w = (a, g, q)"
    by (cases "gc_counts w") auto
  note e = gc_counts_eq [OF c]
  from assms obtain ch where ch: "ch \<in> set w" "is_at ch \<or> is_cg ch"
    by blast
  then have "filter is_at w \<noteq> [] \<or> filter is_cg w \<noteq> []"
    by (auto simp: filter_empty_conv)
  then have "0 < length (filter is_at w) + length (filter is_cg w)"
    by (cases "filter is_at w"; cases "filter is_cg w") auto
  then have "0 < int (length (filter is_at w)) + int (length (filter is_cg w))"
    by linarith
  with e have pos: "0 < a + g" "0 \<le> a" "0 \<le> g"
    by simp_all
  from ch have len: "0 < length w"
    by (cases w) auto
  have x: "0 \<le> real_of_int g / real_of_int (a + g)" "real_of_int g / real_of_int (a + g) \<le> 1"
    using pos by (simp_all add: divide_le_eq)
  have y: "0 \<le> real_of_int q / real (length w)" "real_of_int q / real (length w) \<le> 1"
    using e len by (simp_all add: divide_le_eq)
  have "gc_content w = (Fin (real_of_int g / real_of_int (a + g)),
                        Fin (real_of_int q / real (length w)))"
    using pos len by (simp add: gc_content_def c of_int_d_def)
  with x y c show ?thesis
    by simp
qed

text \<open>
  C9, as stated, fails. For a window of four \<open>N\<close> both base counts are zero, the GC ratio
  is \<^verbatim>\<open>0/0\<close>, a NaN, and a NaN is neither at least 0 nor at most 1. The CpG ratio of that
  window is 0.
\<close>

theorem gc_of_unknown_bases:
  "emit_context args_fai (rec_win ''NNNN'') =
     Inr (annots0\<lparr>GC := Some NaN, CpG := Some (Fin 0)\<rparr>) \<and>
   \<not> (dle (Fin 0) NaN \<and> dle NaN (Fin 1))"
  by (simp add: emit_context_def args_fai_def rec_win_def rec_ex_def gc_content_def
      gc_counts_def gc_step_def upper_def of_int_d_def inf_of_sign_def dle_def)

text \<open>The CpG ratio alone: it is finite and within bounds for every window that is not empty.\<close>

lemma cpg_bounds:
  assumes "w \<noteq> []"
  shows "\<exists>y. snd (gc_content w) = Fin y \<and> 0 \<le> y \<and> y \<le> 1 \<and>
           y = real_of_int (snd (snd (gc_counts w))) / real (length w)"
proof -
  obtain a g q where c: "gc_counts w = (a, g, q)"
    by (cases "gc_counts w") auto
  note e = gc_counts_eq [OF c]
  from assms have len: "0 < length w"
    by simp
  have y: "0 \<le> real_of_int q / real (length w)" "real_of_int q / real (length w) \<le> 1"
    using e len by (simp_all add: divide_le_eq)
  have "snd (gc_content w) = Fin (real_of_int q / real (length w))"
    using len by (simp add: gc_content_def c of_int_d_def)
  with y c show ?thesis
    by simp
qed

text \<open>
  C9, amended. For every fetched window the two values written are those of
  \<open>GC = cg / (at + cg)\<close> and \<open>CpG = cpg / fa_len\<close>. If the window has at least one byte that
  is, once upper-cased, an A, a C, a G or a T (so that \<open>at + cg > 0\<close>), then GC is finite and
  \<open>0 \<le> GC \<le> 1\<close>. If the window is not empty (\<open>fa_len > 0\<close>), then CpG is finite and
  \<open>0 \<le> CpG \<le> 1\<close>.
\<close>

theorem emit_context_bounds:
  assumes "fai args" and "fa r = Some w"
  shows "emit_context args r =
           Inr (annots0\<lparr>GC := Some (fst (gc_content w)), CpG := Some (snd (gc_content w))\<rparr>) \<and>
         ((\<exists>c\<in>set w. is_at c \<or> is_cg c) \<longrightarrow>
            (\<exists>x. fst (gc_content w) = Fin x \<and> 0 \<le> x \<and> x \<le> 1 \<and>
               x = real_of_int (fst (snd (gc_counts w))) /
                   real_of_int (fst (gc_counts w) + fst (snd (gc_counts w))))) \<and>
         (w \<noteq> [] \<longrightarrow>
            (\<exists>y. snd (gc_content w) = Fin y \<and> 0 \<le> y \<and> y \<le> 1 \<and>
               y = real_of_int (snd (snd (gc_counts w))) / real (length w)))"
proof (intro conjI impI)
  show "emit_context args r =
          Inr (annots0\<lparr>GC := Some (fst (gc_content w)), CpG := Some (snd (gc_content w))\<rparr>)"
    using assms by (simp add: emit_context_def)
next
  assume "\<exists>c\<in>set w. is_at c \<or> is_cg c"
  from gc_content_bounds [OF this]
  show "\<exists>x. fst (gc_content w) = Fin x \<and> 0 \<le> x \<and> x \<le> 1 \<and>
          x = real_of_int (fst (snd (gc_counts w))) /
              real_of_int (fst (gc_counts w) + fst (snd (gc_counts w)))"
    by auto
next
  assume "w \<noteq> []"
  from cpg_bounds [OF this]
  show "\<exists>y. snd (gc_content w) = Fin y \<and> 0 \<le> y \<and> y \<le> 1 \<and>
          y = real_of_int (snd (snd (gc_counts w))) / real (length w)"
    .
qed

theorem emit_context_bounds_witness:
  "emit_context args_fai (rec_win ''ACGTACGTACGT'') =
     Inr (annots0\<lparr>GC := Some (Fin 0.5), CpG := Some (Fin 0.5)\<rparr>) \<and>
   (\<exists>c\<in>set ''ACGTACGTACGT''. is_at c \<or> is_cg c) \<and> ''ACGTACGTACGT'' \<noteq> [] \<and>
   emit_context args_fai (rec_win ''NNNN'') =
     Inr (annots0\<lparr>GC := Some NaN, CpG := Some (Fin 0)\<rparr>) \<and> ''NNNN'' \<noteq> []"
  using emit_context_bounds [of args_fai "rec_win ''ACGTACGTACGT''" "''ACGTACGTACGT''"]
    emit_context_bounds [of args_fai "rec_win ''NNNN''" "''NNNN''"]
  by (simp add: emit_context_def args_fai_def rec_win_def rec_ex_def gc_content_def
      gc_counts_def gc_step_def upper_def of_int_d_def is_at_def inf_of_sign_def)

section \<open>Properties of the binomial tail\<close>

text \<open>
  C10. For \<open>n < 0\<close>, \<open>k < 0\<close> or \<open>k > n\<close> the result of \<^verbatim>\<open>binom_exact\<close> is a NaN. The table
  is returned as it was, but for the mark of the release when both arguments are negative,
  and the result is the same for any other table, any \<^verbatim>\<open>binom_dist\<close> and any rounding:
  nothing of the table is read.
\<close>

theorem binom_exact_out_of_domain:
  assumes "n < 0 \<or> k < 0 \<or> k > n"
  shows "fst (binom_exact rnd bd k n t) = NaN \<and>
         snd (binom_exact rnd bd k n t) = (if n < 0 \<and> k < 0 then t\<lparr>freed := True\<rparr> else t) \<and>
         fst (binom_exact rnd' bd' k n t') = fst (binom_exact rnd bd k n t)"
  using assms by (auto simp: binom_exact_def)

theorem binom_exact_out_of_domain_witness:
  "fst (binom_exact rnd53 (binom_dist kernels_ex) (- 1) (- 1) binom_tab0) = NaN \<and>
   snd (binom_exact rnd53 (binom_dist kernels_ex) (- 1) (- 1) binom_tab0) =
     binom_tab0\<lparr>freed := True\<rparr> \<and>
   fst (binom_exact rnd53 (binom_dist kernels_ex) 4 3 binom_tab0) = NaN \<and>
   snd (binom_exact rnd53 (binom_dist kernels_ex) 4 3 binom_tab0) = binom_tab0"
  using binom_exact_out_of_domain [of "- 1" "- 1" rnd53 "binom_dist kernels_ex" binom_tab0]
    binom_exact_out_of_domain [of 3 4 rnd53 "binom_dist kernels_ex" binom_tab0]
  by simp

section \<open>Properties of the beta-binomial cache\<close>

declare loop_n1.simps [simp del] loop_n2.simps [simp del]

lemma loop_n1_done: "\<not> self_n1 s < n \<Longrightarrow> loop_n1 f g n s = s"
  by (subst loop_n1.simps) simp

lemma loop_n1_step: "self_n1 s < n \<Longrightarrow> loop_n1 f g n s = loop_n1 f g n (step_n1 f g s)"
  by (subst loop_n1.simps) simp

lemma loop_n2_done: "\<not> self_n2 s < n \<Longrightarrow> loop_n2 f n s = s"
  by (subst loop_n2.simps) simp

lemma loop_n2_step: "self_n2 s < n \<Longrightarrow> loop_n2 f n s = loop_n2 f n (step_n2 f s)"
  by (subst loop_n2.simps) simp

lemma stores_n1_rec: "a < n \<Longrightarrow> stores_n1 a n = [(Alpha, nat (a + 1)), (Beta, nat (a + 1))] @ stores_n1 (a + 1) n"
  by (simp add: stores_n1_def upto_rec1)

lemma stores_n2_rec: "a < n \<Longrightarrow> stores_n2 a n = (AlphaBeta, nat (a + 1)) # stores_n2 (a + 1) n"
  by (simp add: stores_n2_def upto_rec1)

lemma loop_n1_props:
  "stores (loop_n1 f g n s) = stores s @ stores_n1 (self_n1 s) n \<and>
   self_n1 (loop_n1 f g n s) = max (self_n1 s) n \<and>
   self_n2 (loop_n1 f g n s) = self_n2 s \<and>
   self_p (loop_n1 f g n s) = self_p s \<and> self_rho (loop_n1 f g n s) = self_rho s \<and>
   log_gamma_alpha_beta (loop_n1 f g n s) = log_gamma_alpha_beta s \<and>
   m_log_gamma_alpha (loop_n1 f g n s) = m_log_gamma_alpha s \<and>
   m_log_gamma_beta (loop_n1 f g n s) = m_log_gamma_beta s \<and>
   m_log_gamma_alpha_beta (loop_n1 f g n s) = m_log_gamma_alpha_beta s \<and>
   (0 \<le> self_n1 s \<longrightarrow> (\<forall>j. int j \<le> self_n1 s \<or> n < int j \<longrightarrow>
        log_gamma_alpha (loop_n1 f g n s) j = log_gamma_alpha s j \<and>
        log_gamma_beta (loop_n1 f g n s) j = log_gamma_beta s j))"
proof (induction f g n s rule: loop_n1.induct)
  case (1 f g n s)
  show ?case
  proof (cases "self_n1 s < n")
    case False
    then show ?thesis
      by (simp add: loop_n1_done stores_n1_def)
  next
    case True
    note ih = "1.IH" [OF True]
    have st: "self_n1 (step_n1 f g s) = self_n1 s + 1"
      "stores (step_n1 f g s) = stores s @ [(Alpha, nat (self_n1 s + 1)), (Beta, nat (self_n1 s + 1))]"
      "self_n2 (step_n1 f g s) = self_n2 s" "self_p (step_n1 f g s) = self_p s"
      "self_rho (step_n1 f g s) = self_rho s"
      "log_gamma_alpha_beta (step_n1 f g s) = log_gamma_alpha_beta s"
      "m_log_gamma_alpha (step_n1 f g s) = m_log_gamma_alpha s"
      "m_log_gamma_beta (step_n1 f g s) = m_log_gamma_beta s"
      "m_log_gamma_alpha_beta (step_n1 f g s) = m_log_gamma_alpha_beta s"
      by (simp_all add: step_n1_def Let_def)
    have arr: "\<And>j. j \<noteq> nat (self_n1 s + 1) \<Longrightarrow>
        log_gamma_alpha (step_n1 f g s) j = log_gamma_alpha s j \<and>
        log_gamma_beta (step_n1 f g s) j = log_gamma_beta s j"
      by (simp add: step_n1_def Let_def)
    have "0 \<le> self_n1 s \<longrightarrow> (\<forall>j. int j \<le> self_n1 s \<or> n < int j \<longrightarrow>
        log_gamma_alpha (loop_n1 f g n (step_n1 f g s)) j = log_gamma_alpha s j \<and>
        log_gamma_beta (loop_n1 f g n (step_n1 f g s)) j = log_gamma_beta s j)"
    proof (intro allI impI)
      fix j assume nn: "0 \<le> self_n1 s" and j: "int j \<le> self_n1 s \<or> n < int j"
      with True have "j \<noteq> nat (self_n1 s + 1)" by linarith
      from arr [OF this] ih j nn st(1) show
        "log_gamma_alpha (loop_n1 f g n (step_n1 f g s)) j = log_gamma_alpha s j \<and>
         log_gamma_beta (loop_n1 f g n (step_n1 f g s)) j = log_gamma_beta s j"
        by auto
    qed
    with ih True show ?thesis
      by (simp add: loop_n1_step [OF True] st stores_n1_rec [OF True])
  qed
qed

lemma loop_n2_props:
  "stores (loop_n2 f n s) = stores s @ stores_n2 (self_n2 s) n \<and>
   self_n2 (loop_n2 f n s) = max (self_n2 s) n \<and>
   self_n1 (loop_n2 f n s) = self_n1 s \<and>
   self_p (loop_n2 f n s) = self_p s \<and> self_rho (loop_n2 f n s) = self_rho s \<and>
   log_gamma_alpha (loop_n2 f n s) = log_gamma_alpha s \<and>
   log_gamma_beta (loop_n2 f n s) = log_gamma_beta s \<and>
   m_log_gamma_alpha (loop_n2 f n s) = m_log_gamma_alpha s \<and>
   m_log_gamma_beta (loop_n2 f n s) = m_log_gamma_beta s \<and>
   m_log_gamma_alpha_beta (loop_n2 f n s) = m_log_gamma_alpha_beta s \<and>
   (0 \<le> self_n2 s \<longrightarrow> (\<forall>j. int j \<le> self_n2 s \<or> n < int j \<longrightarrow>
        log_gamma_alpha_beta (loop_n2 f n s) j = log_gamma_alpha_beta s j))"
proof (induction f n s rule: loop_n2.induct)
  case (1 f n s)
  show ?case
  proof (cases "self_n2 s < n")
    case False
    then show ?thesis
      by (simp add: loop_n2_done stores_n2_def)
  next
    case True
    note ih = "1.IH" [OF True]
    have st: "self_n2 (step_n2 f s) = self_n2 s + 1"
      "stores (step_n2 f s) = stores s @ [(AlphaBeta, nat (self_n2 s + 1))]"
      "self_n1 (step_n2 f s) = self_n1 s" "self_p (step_n2 f s) = self_p s"
      "self_rho (step_n2 f s) = self_rho s"
      "log_gamma_alpha (step_n2 f s) = log_gamma_alpha s"
      "log_gamma_beta (step_n2 f s) = log_gamma_beta s"
      "m_log_gamma_alpha (step_n2 f s) = m_log_gamma_alpha s"
      "m_log_gamma_beta (step_n2 f s) = m_log_gamma_beta s"
      "m_log_gamma_alpha_beta (step_n2 f s) = m_log_gamma_alpha_beta s"
      by (simp_all add: step_n2_def Let_def)
    have arr: "\<And>j. j \<noteq> nat (self_n2 s + 1) \<Longrightarrow>
        log_gamma_alpha_beta (step_n2 f s) j = log_gamma_alpha_beta s j"
      by (simp add: step_n2_def Let_def)
    have "0 \<le> self_n2 s \<longrightarrow> (\<forall>j. int j \<le> self_n2 s \<or> n < int j \<longrightarrow>
        log_gamma_alpha_beta (loop_n2 f n (step_n2 f s)) j = log_gamma_alpha_beta s j)"
    proof (intro allI impI)
      fix j assume nn: "0 \<le> self_n2 s" and j: "int j \<le> self_n2 s \<or> n < int j"
      with True have "j \<noteq> nat (self_n2 s + 1)" by linarith
      from arr [OF this] ih j nn st(1) show
        "log_gamma_alpha_beta (loop_n2 f n (step_n2 f s)) j = log_gamma_alpha_beta s j"
        by auto
    qed
    with ih True show ?thesis
      by (simp add: loop_n2_step [OF True] st stores_n2_rec [OF True])
  qed
qed

lemma set_stores_n1:
  "set (stores_n1 a n) =
     (\<lambda>i. (Alpha, nat i)) ` {a + 1..n} \<union> (\<lambda>i. (Beta, nat i)) ` {a + 1..n}"
  by (auto simp: stores_n1_def)

lemma set_stores_n2: "set (stores_n2 a n) = (\<lambda>i. (AlphaBeta, nat i)) ` {a + 1..n}"
  by (auto simp: stores_n2_def)

lemma distinct_stores_n2: "0 \<le> a \<Longrightarrow> distinct (stores_n2 a n)"
  by (auto simp: stores_n2_def distinct_map inj_on_def)

lemma distinct_stores_n1: "0 \<le> a \<Longrightarrow> distinct (stores_n1 a n)"
proof (induction "nat (n - a)" arbitrary: a)
  case 0
  then show ?case by (simp add: stores_n1_def)
next
  case (Suc k)
  then have lt: "a < n" by linarith
  from Suc have "distinct (stores_n1 (a + 1) n)" by simp
  with Suc.prems show ?case
    by (auto simp: stores_n1_rec [OF lt] set_stores_n1)
qed

lemma update_props:
  "stores (beta_binom_update k s p rho n1 n2) =
     stores s @ stores_n1 (self_n1 (beta_binom_reset s p rho)) n1
              @ stores_n2 (self_n2 (beta_binom_reset s p rho)) n2 \<and>
   self_n1 (beta_binom_update k s p rho n1 n2) = max (self_n1 (beta_binom_reset s p rho)) n1 \<and>
   self_n2 (beta_binom_update k s p rho n1 n2) = max (self_n2 (beta_binom_reset s p rho)) n2 \<and>
   self_p (beta_binom_update k s p rho n1 n2) = self_p (beta_binom_reset s p rho) \<and>
   self_rho (beta_binom_update k s p rho n1 n2) = self_rho (beta_binom_reset s p rho) \<and>
   m_log_gamma_alpha (beta_binom_update k s p rho n1 n2) =
     hts_expand k (n1 + 1) (m_log_gamma_alpha s) \<and>
   m_log_gamma_beta (beta_binom_update k s p rho n1 n2) =
     hts_expand k (n1 + 1) (m_log_gamma_beta s) \<and>
   m_log_gamma_alpha_beta (beta_binom_update k s p rho n1 n2) =
     hts_expand k (n2 + 1) (m_log_gamma_alpha_beta s)"
proof -
  have r: "stores (beta_binom_reset s p rho) = stores s"
    "m_log_gamma_alpha (beta_binom_reset s p rho) = m_log_gamma_alpha s"
    "m_log_gamma_beta (beta_binom_reset s p rho) = m_log_gamma_beta s"
    "m_log_gamma_alpha_beta (beta_binom_reset s p rho) = m_log_gamma_alpha_beta s"
    by (simp_all add: beta_binom_reset_def)
  show ?thesis
    by (simp add: beta_binom_update_def fill_binomial_def fill_beta_def Let_def
        loop_n1_props loop_n2_props beta_binom_expand_def r)
qed

lemma update_arrays:
  assumes "0 \<le> self_n1 (beta_binom_reset s p rho)" and "0 \<le> self_n2 (beta_binom_reset s p rho)"
  shows "(int j \<le> self_n1 (beta_binom_reset s p rho) \<or> n1 < int j \<longrightarrow>
            log_gamma_alpha (beta_binom_update k s p rho n1 n2) j = log_gamma_alpha s j \<and>
            log_gamma_beta (beta_binom_update k s p rho n1 n2) j = log_gamma_beta s j) \<and>
         (int j \<le> self_n2 (beta_binom_reset s p rho) \<or> n2 < int j \<longrightarrow>
            log_gamma_alpha_beta (beta_binom_update k s p rho n1 n2) j = log_gamma_alpha_beta s j)"
proof -
  have r: "log_gamma_alpha (beta_binom_reset s p rho) = log_gamma_alpha s"
    "log_gamma_beta (beta_binom_reset s p rho) = log_gamma_beta s"
    "log_gamma_alpha_beta (beta_binom_reset s p rho) = log_gamma_alpha_beta s"
    by (simp_all add: beta_binom_reset_def)
  have e: "self_n1 (beta_binom_expand k n1 n2 t) = self_n1 t"
    "self_n2 (beta_binom_expand k n1 n2 t) = self_n2 t"
    "log_gamma_alpha (beta_binom_expand k n1 n2 t) = log_gamma_alpha t"
    "log_gamma_beta (beta_binom_expand k n1 n2 t) = log_gamma_beta t"
    "log_gamma_alpha_beta (beta_binom_expand k n1 n2 t) = log_gamma_alpha_beta t" for t
    by (simp_all add: beta_binom_expand_def)
  from assms show ?thesis
    by (simp add: beta_binom_update_def fill_binomial_def fill_beta_def Let_def
        loop_n1_props loop_n2_props e r)
qed

lemma reset_cases:
  "\<not> isnan p \<Longrightarrow> \<not> isnan rho \<Longrightarrow>
   self_p (beta_binom_reset s p rho) = p \<and> self_rho (beta_binom_reset s p rho) = rho"
  by (auto simp: beta_binom_reset_def dne_def)

lemma reset_fixed: "self_p s = p \<Longrightarrow> self_rho s = rho \<Longrightarrow> \<not> isnan p \<Longrightarrow> \<not> isnan rho \<Longrightarrow>
   beta_binom_reset s p rho = s"
  by (auto simp: beta_binom_reset_def dne_def)

lemma reset_n: "0 \<le> self_n1 s \<Longrightarrow> 0 \<le> self_n2 s \<Longrightarrow>
   0 \<le> self_n1 (beta_binom_reset s p rho) \<and> 0 \<le> self_n2 (beta_binom_reset s p rho)"
  by (auto simp: beta_binom_reset_def)

lemma update_inv:
  assumes nn: "\<not> isnan p" "\<not> isnan rho"
    and inv: "cache_inv new s p rho" and st: "stores s = base @ new"
  shows "\<exists>new'. stores (beta_binom_update k s p rho n1 n2) = base @ new' \<and>
           cache_inv new' (beta_binom_update k s p rho n1 n2) p rho"
proof -
  let ?r = "beta_binom_reset s p rho"
  let ?u = "beta_binom_update k s p rho n1 n2"
  let ?w = "stores_n1 (self_n1 ?r) n1 @ stores_n2 (self_n2 ?r) n2"
  note up = update_props [of k s p rho n1 n2]
  from inv have n0: "0 \<le> self_n1 s" "0 \<le> self_n2 s"
    by (simp_all add: cache_inv_def)
  from reset_n [OF n0] have rn: "0 \<le> self_n1 ?r" "0 \<le> self_n2 ?r"
    by simp_all
  have bound: "list_all (\<lambda>cj. int (snd cj) \<le> hwm ?r (fst cj)) new"
  proof (cases "new = []")
    case True
    then show ?thesis by simp
  next
    case False
    with inv have "self_p s = p" "self_rho s = rho"
      by (simp_all add: cache_inv_def)
    from reset_fixed [OF this nn] inv show ?thesis
      by (simp add: cache_inv_def)
  qed
  have d: "distinct (new @ ?w)"
    using inv rn bound
    by (fastforce simp: cache_inv_def distinct_stores_n1 distinct_stores_n2 set_stores_n1
        set_stores_n2 list_all_iff)
  have mono: "hwm ?r c \<le> hwm ?u c" for c
    using up by (cases c) simp_all
  have b1: "list_all (\<lambda>cj. int (snd cj) \<le> hwm ?u (fst cj)) new"
    unfolding list_all_iff
  proof
    fix cj assume "cj \<in> set new"
    with bound have "int (snd cj) \<le> hwm ?r (fst cj)"
      by (simp add: list_all_iff)
    with mono [of "fst cj"] show "int (snd cj) \<le> hwm ?u (fst cj)"
      by linarith
  qed
  have b2: "list_all (\<lambda>cj. int (snd cj) \<le> hwm ?u (fst cj)) (stores_n1 (self_n1 ?r) n1)"
    using up rn by (auto simp: list_all_iff set_stores_n1)
  have b3: "list_all (\<lambda>cj. int (snd cj) \<le> hwm ?u (fst cj)) (stores_n2 (self_n2 ?r) n2)"
    using up rn by (auto simp: list_all_iff set_stores_n2)
  have b: "list_all (\<lambda>cj. int (snd cj) \<le> hwm ?u (fst cj)) (new @ ?w)"
    using b1 b2 b3 by simp
  have nu: "0 \<le> self_n1 ?u" "0 \<le> self_n2 ?u"
    using up rn by linarith+
  have pu: "self_p ?u = p" "self_rho ?u = rho"
    using up reset_cases [OF nn, of s] by simp_all
  have "cache_inv (new @ ?w) ?u p rho"
    unfolding cache_inv_def using d b nu pu by blast
  moreover have "stores ?u = base @ (new @ ?w)"
    using up st by simp
  ultimately show ?thesis
    by blast
qed

lemma updates_inv:
  assumes nn: "\<not> isnan p" "\<not> isnan rho"
  shows "cache_inv new s p rho \<Longrightarrow> stores s = base @ new \<Longrightarrow>
         \<exists>new'. stores (beta_binom_updates k s p rho ns) = base @ new' \<and>
           cache_inv new' (beta_binom_updates k s p rho ns) p rho"
proof (induction ns arbitrary: s new)
  case Nil
  then show ?case
    by (auto simp: beta_binom_updates_def)
next
  case (Cons n ns)
  from update_inv [OF nn Cons.prems, of k "fst n" "snd n"]
  obtain new1 where
    "stores (beta_binom_update k s p rho (fst n) (snd n)) = base @ new1"
    "cache_inv new1 (beta_binom_update k s p rho (fst n) (snd n)) p rho"
    by blast
  from Cons.IH [OF this(2,1)] show ?case
    by (simp add: beta_binom_updates_def)
qed

text \<open>The initial state, and the elements that short loops assign.\<close>

lemma stores_ex: "stores_n1 0 2 = [(Alpha, 1), (Beta, 1), (Alpha, 2), (Beta, 2)]"
  "stores_n2 0 1 = [(AlphaBeta, 1)]" "stores_n1 2 3 = [(Alpha, 3), (Beta, 3)]"
  "stores_n2 1 2 = [(AlphaBeta, 2)]" "stores_n1 2 2 = []" "stores_n2 1 1 = []"
  by (simp_all add: stores_n1_def stores_n2_def upto_rec1)

lemma init_ex:
  "self_n1 (beta_binom_init id) = 0" "self_n2 (beta_binom_init id) = 0"
  "stores (beta_binom_init id) = []" "self_p (beta_binom_init id) = NaN"
  "self_rho (beta_binom_init id) = NaN"
  by (simp_all add: beta_binom_init_def)

text \<open>
  C8, as stated, fails when a parameter is a NaN. \<^verbatim>\<open>self->p != p\<close> holds for a NaN \<open>p\<close>
  whatever is stored, so every call resets the marks. Two calls with the same \<open>p = NaN\<close>,
  \<open>rho = 0\<close>, \<open>n1 = 2\<close> and \<open>n2 = 1\<close>, from the initial state, assign the elements 1 and 2 of
  the first two arrays and the element 1 of the third array twice.
\<close>

theorem beta_binom_nan_recomputes:
  "stores (beta_binom_updates id (beta_binom_init id) NaN (Fin 0) [(2, 1), (2, 1)]) =
     [(Alpha, 1), (Beta, 1), (Alpha, 2), (Beta, 2), (AlphaBeta, 1),
      (Alpha, 1), (Beta, 1), (Alpha, 2), (Beta, 2), (AlphaBeta, 1)] \<and>
   \<not> distinct (stores (beta_binom_updates id (beta_binom_init id) NaN (Fin 0) [(2, 1), (2, 1)]))"
  by (simp add: beta_binom_updates_def update_props beta_binom_reset_def dne_def init_ex
      stores_ex)

text \<open>
  C8, amended. From a state with non-negative marks: (1) in a run of calls with the same
  parameters, neither of them a NaN, no array element is assigned twice, whatever the
  arguments \<open>n1\<close> and \<open>n2\<close> of the calls; (2) a call whose parameters compare equal to the
  stored ones assigns only elements above the marks and leaves the elements up to the marks
  as they were; (3) a call with a changed parameter, which is one for which
  \<^verbatim>\<open>self->p != p || self->rho != rho\<close> holds, resets both marks to 0, keeps the arrays and
  their capacities, and then assigns the elements 1 to \<open>n1\<close> and 1 to \<open>n2\<close> anew, leaving the
  other elements as they were.
\<close>

theorem beta_binom_cache:
  assumes "0 \<le> self_n1 s" and "0 \<le> self_n2 s"
  shows "(\<not> isnan p \<and> \<not> isnan rho \<longrightarrow>
            (\<exists>new. stores (beta_binom_updates k s p rho ns) = stores s @ new \<and> distinct new)) \<and>
         (\<not> dne (self_p s) p \<and> \<not> dne (self_rho s) rho \<longrightarrow>
            stores (beta_binom_update k s p rho n1 n2) =
              stores s @ stores_n1 (self_n1 s) n1 @ stores_n2 (self_n2 s) n2 \<and>
            (\<forall>j. int j \<le> self_n1 s \<longrightarrow>
               log_gamma_alpha (beta_binom_update k s p rho n1 n2) j = log_gamma_alpha s j \<and>
               log_gamma_beta (beta_binom_update k s p rho n1 n2) j = log_gamma_beta s j) \<and>
            (\<forall>j. int j \<le> self_n2 s \<longrightarrow>
               log_gamma_alpha_beta (beta_binom_update k s p rho n1 n2) j =
                 log_gamma_alpha_beta s j)) \<and>
         (dne (self_p s) p \<or> dne (self_rho s) rho \<longrightarrow>
            self_n1 (beta_binom_reset s p rho) = 0 \<and> self_n2 (beta_binom_reset s p rho) = 0 \<and>
            log_gamma_alpha (beta_binom_reset s p rho) = log_gamma_alpha s \<and>
            log_gamma_beta (beta_binom_reset s p rho) = log_gamma_beta s \<and>
            log_gamma_alpha_beta (beta_binom_reset s p rho) = log_gamma_alpha_beta s \<and>
            m_log_gamma_alpha (beta_binom_reset s p rho) = m_log_gamma_alpha s \<and>
            m_log_gamma_beta (beta_binom_reset s p rho) = m_log_gamma_beta s \<and>
            m_log_gamma_alpha_beta (beta_binom_reset s p rho) = m_log_gamma_alpha_beta s \<and>
            stores (beta_binom_update k s p rho n1 n2) =
              stores s @ stores_n1 0 n1 @ stores_n2 0 n2 \<and>
            (\<forall>j. j = 0 \<or> n1 < int j \<longrightarrow>
               log_gamma_alpha (beta_binom_update k s p rho n1 n2) j = log_gamma_alpha s j \<and>
               log_gamma_beta (beta_binom_update k s p rho n1 n2) j = log_gamma_beta s j) \<and>
            (\<forall>j. j = 0 \<or> n2 < int j \<longrightarrow>
               log_gamma_alpha_beta (beta_binom_update k s p rho n1 n2) j =
                 log_gamma_alpha_beta s j))"
proof (intro conjI impI)
  assume nn: "\<not> isnan p \<and> \<not> isnan rho"
  have "cache_inv [] s p rho"
    using assms by (simp add: cache_inv_def)
  from updates_inv [of p rho "[]" s "stores s" k ns] nn this
  show "\<exists>new. stores (beta_binom_updates k s p rho ns) = stores s @ new \<and> distinct new"
    by (auto simp: cache_inv_def)
next
  assume fixed: "\<not> dne (self_p s) p \<and> \<not> dne (self_rho s) rho"
  then have r: "beta_binom_reset s p rho = s"
    by (simp add: beta_binom_reset_def)
  from update_props [of k s p rho n1 n2] r
  show "stores (beta_binom_update k s p rho n1 n2) =
          stores s @ stores_n1 (self_n1 s) n1 @ stores_n2 (self_n2 s) n2"
    by simp
  from update_arrays [of s p rho _ n1 k n2] r assms
  show "\<forall>j. int j \<le> self_n1 s \<longrightarrow>
          log_gamma_alpha (beta_binom_update k s p rho n1 n2) j = log_gamma_alpha s j \<and>
          log_gamma_beta (beta_binom_update k s p rho n1 n2) j = log_gamma_beta s j"
    by simp
  from update_arrays [of s p rho _ n1 k n2] r assms
  show "\<forall>j. int j \<le> self_n2 s \<longrightarrow>
          log_gamma_alpha_beta (beta_binom_update k s p rho n1 n2) j = log_gamma_alpha_beta s j"
    by simp
next
  assume ch: "dne (self_p s) p \<or> dne (self_rho s) rho"
  then have r: "beta_binom_reset s p rho = s\<lparr>self_p := p, self_rho := rho, self_n1 := 0, self_n2 := 0\<rparr>"
    by (simp add: beta_binom_reset_def)
  then have r0: "self_n1 (beta_binom_reset s p rho) = 0" "self_n2 (beta_binom_reset s p rho) = 0"
    by simp_all
  show "self_n1 (beta_binom_reset s p rho) = 0" "self_n2 (beta_binom_reset s p rho) = 0"
    "log_gamma_alpha (beta_binom_reset s p rho) = log_gamma_alpha s"
    "log_gamma_beta (beta_binom_reset s p rho) = log_gamma_beta s"
    "log_gamma_alpha_beta (beta_binom_reset s p rho) = log_gamma_alpha_beta s"
    "m_log_gamma_alpha (beta_binom_reset s p rho) = m_log_gamma_alpha s"
    "m_log_gamma_beta (beta_binom_reset s p rho) = m_log_gamma_beta s"
    "m_log_gamma_alpha_beta (beta_binom_reset s p rho) = m_log_gamma_alpha_beta s"
    by (simp_all add: r)
  from update_props [of k s p rho n1 n2] r0
  show "stores (beta_binom_update k s p rho n1 n2) = stores s @ stores_n1 0 n1 @ stores_n2 0 n2"
    by simp
  from update_arrays [of s p rho _ n1 k n2] r0
  show "\<forall>j. j = 0 \<or> n1 < int j \<longrightarrow>
          log_gamma_alpha (beta_binom_update k s p rho n1 n2) j = log_gamma_alpha s j \<and>
          log_gamma_beta (beta_binom_update k s p rho n1 n2) j = log_gamma_beta s j"
    by auto
  from update_arrays [of s p rho _ n1 k n2] r0
  show "\<forall>j. j = 0 \<or> n2 < int j \<longrightarrow>
          log_gamma_alpha_beta (beta_binom_update k s p rho n1 n2) j = log_gamma_alpha_beta s j"
    by auto
qed

lemma cache_ex_fields:
  "stores cache_ex = [(Alpha, 1), (Beta, 1), (Alpha, 2), (Beta, 2), (AlphaBeta, 1)]"
  "self_n1 cache_ex = 2" "self_n2 cache_ex = 1" "self_p cache_ex = Fin 0.5" "self_rho cache_ex = Fin 0"
  by (simp_all add: cache_ex_def update_props beta_binom_reset_def init_ex dne_def stores_ex)

theorem beta_binom_cache_witness:
  "stores (beta_binom_updates id cache_ex (Fin 0.5) (Fin 0) [(2, 1), (3, 2)]) =
     stores cache_ex @ [(Alpha, 3), (Beta, 3), (AlphaBeta, 2)] \<and>
   distinct [(Alpha, 3), (Beta, 3), (AlphaBeta, 2 :: nat)] \<and>
   \<not> dne (self_p cache_ex) (Fin 0.5) \<and> \<not> dne (self_rho cache_ex) (Fin 0) \<and>
   stores (beta_binom_update id cache_ex (Fin 0.5) (Fin 0) 3 2) =
     stores cache_ex @ [(Alpha, 3), (Beta, 3), (AlphaBeta, 2)] \<and>
   dne (self_p cache_ex) (Fin 0.25) \<and>
   self_n1 (beta_binom_reset cache_ex (Fin 0.25) (Fin 0)) = 0 \<and>
   self_n2 (beta_binom_reset cache_ex (Fin 0.25) (Fin 0)) = 0 \<and>
   stores (beta_binom_update id cache_ex (Fin 0.25) (Fin 0) 2 1) =
     stores cache_ex @ [(Alpha, 1), (Beta, 1), (Alpha, 2), (Beta, 2), (AlphaBeta, 1)]"
  using beta_binom_cache [of cache_ex "Fin 0.5" "Fin 0" id "[(2, 1), (3, 2)]" 3 2]
    beta_binom_cache [of cache_ex "Fin 0.25" "Fin 0" id "[]" 2 1]
  by (simp add: cache_ex_fields dne_def beta_binom_updates_def update_props
      beta_binom_reset_def stores_ex)

section \<open>Properties of the Mann-Whitney walk\<close>

text \<open>
  The comparisons of doubles on values that are not NaN, and the sort: \<open>qsort\<close> keeps the
  values with their multiplicities and arranges a sample without a NaN in ascending order.
\<close>

lemma dle_refl: "\<not> isnan x \<Longrightarrow> dle x x"
  by (simp add: dle_def)

lemma dlt_trans: "dlt x y \<Longrightarrow> dlt y z \<Longrightarrow> dlt x z"
  by (cases x; cases y; cases z) auto

lemma dlt_irrefl: "\<not> dlt x x"
  by (cases x) auto

lemma dlt_asym: "dlt x y \<Longrightarrow> \<not> dlt y x"
  by (cases x; cases y) auto

lemma dlt_total: "\<not> isnan x \<Longrightarrow> \<not> isnan y \<Longrightarrow> dlt x y \<or> x = y \<or> dlt y x"
  by (cases x; cases y) auto

lemma dle_trans: "dle x y \<Longrightarrow> dle y z \<Longrightarrow> dle x z"
  by (auto simp: dle_def dest: dlt_trans)

lemma not_dlt_dle: "\<not> isnan x \<Longrightarrow> \<not> isnan y \<Longrightarrow> \<not> dlt x y \<Longrightarrow> dle y x"
  using dlt_total [of x y] by (auto simp: dle_def)

lemma dle_not_dlt: "dle x y \<Longrightarrow> \<not> dlt y x"
  by (auto simp: dle_def dlt_asym dlt_irrefl)

lemma deq_eq: "\<not> isnan c \<Longrightarrow> deq x c = (x = c)"
  by (auto simp: deq_def)

lemma set_insort_cmp: "set (insort_cmp x xs) = insert x (set xs)"
  by (induction xs) auto

lemma count_insort_cmp: "count_list (insort_cmp x xs) v = count_list (x # xs) v"
  by (induction xs) auto

lemma set_qsort: "set (qsort xs) = set xs"
  by (induction xs) (simp_all add: qsort_def set_insort_cmp)

lemma count_qsort: "count_list (qsort xs) v = count_list xs v"
  by (induction xs) (simp_all add: qsort_def count_insort_cmp)

lemma sorted_insort_cmp:
  "\<not> isnan x \<Longrightarrow> no_nan xs \<Longrightarrow> sorted_wrt dle xs \<Longrightarrow> sorted_wrt dle (insort_cmp x xs)"
proof (induction xs)
  case Nil
  then show ?case by simp
next
  case (Cons y ys)
  then have ny: "\<not> isnan y" by (simp add: no_nan_def)
  show ?case
  proof (cases "cmpfunc x y \<le> 0")
    case True
    then have "\<not> dlt y x" by (auto simp: cmpfunc_def dlt_asym split: if_splits)
    with Cons.prems(1) ny have xy: "dle x y" by (simp add: not_dlt_dle)
    with Cons.prems(3) have "\<forall>z\<in>set ys. dle x z"
      by (auto intro: dle_trans)
    with True xy Cons.prems(3) show ?thesis by simp
  next
    case False
    then have "dlt y x" by (auto simp: cmpfunc_def split: if_splits)
    then have "dle y x" by (simp add: dle_def)
    with False Cons show ?thesis
      by (auto simp: set_insort_cmp no_nan_def)
  qed
qed

lemma no_nan_qsort: "no_nan (qsort xs) = no_nan xs"
  by (simp add: no_nan_def list_all_iff set_qsort)

lemma sorted_qsort: "no_nan xs \<Longrightarrow> sorted_wrt dle (qsort xs)"
proof (induction xs)
  case Nil
  then show ?case by (simp add: qsort_def)
next
  case (Cons x xs)
  then have "sorted_wrt dle (qsort xs)" "\<not> isnan x" "no_nan (qsort xs)"
    by (simp_all add: no_nan_def no_nan_qsort [unfolded no_nan_def])
  then have "sorted_wrt dle (insort_cmp x (qsort xs))"
    by (simp add: sorted_insort_cmp)
  then show ?case by (simp add: qsort_def)
qed

lemma group_at_front:
  assumes "sorted_wrt dle xs" and "\<not> isnan c" and "\<forall>x\<in>set xs. dle c x"
  shows "takeWhile (\<lambda>x. deq x c) xs = filter (\<lambda>x. x = c) xs \<and>
         dropWhile (\<lambda>x. deq x c) xs = filter (\<lambda>x. x \<noteq> c) xs"
  using assms
proof (induction xs)
  case Nil
  then show ?case by simp
next
  case (Cons x xs)
  show ?case
  proof (cases "x = c")
    case True
    with Cons show ?thesis
      by (simp add: deq_eq)
  next
    case False
    have "y \<noteq> c" if "y \<in> set xs" for y
    proof
      assume "y = c"
      with that Cons.prems(1) have "dle x c" by auto
      moreover from Cons.prems(3) False have "dlt c x" by (auto simp: dle_def)
      ultimately show False by (simp add: dle_not_dlt)
    qed
    then have "filter (\<lambda>x. x = c) xs = []" "filter (\<lambda>x. x \<noteq> c) xs = xs"
      by (simp_all add: filter_empty_conv filter_id_conv)
    with False Cons.prems(2) show ?thesis
      by (simp add: deq_eq)
  qed
qed

lemma count_filter: "count_list (filter P xs) v = (if P v then count_list xs v else 0)"
  by (induction xs) auto

lemma length_filter_eq_count: "length (filter (\<lambda>x. x = c) xs) = count_list xs c"
  by (induction xs) auto

lemma count_pos_iff: "count_list xs c \<noteq> 0 \<longleftrightarrow> c \<in> set xs"
  by (induction xs) auto

lemma ties_shared_split:
  "ties_shared a b =
     (if c \<in> set a \<and> c \<in> set b then tie_term (count_list a c + count_list b c) else 0) +
     ties_shared (filter (\<lambda>x. x \<noteq> c) a) (filter (\<lambda>x. x \<noteq> c) b)"
proof -
  let ?f = "\<lambda>v. tie_term (count_list a v + count_list b v)"
  let ?S = "set a \<inter> set b"
  have rest: "ties_shared (filter (\<lambda>x. x \<noteq> c) a) (filter (\<lambda>x. x \<noteq> c) b) = sum ?f (?S - {c})"
  proof -
    have "set (filter (\<lambda>x. x \<noteq> c) a) \<inter> set (filter (\<lambda>x. x \<noteq> c) b) = ?S - {c}"
      by auto
    then show ?thesis
      unfolding ties_shared_def
      by (intro sum.cong) (auto simp: count_filter)
  qed
  show ?thesis
  proof (cases "c \<in> ?S")
    case True
    then have "sum ?f ?S = ?f c + sum ?f (?S - {c})"
      by (intro sum.remove) auto
    with True rest show ?thesis
      by (simp add: ties_shared_def)
  next
    case False
    then have "?S - {c} = ?S" by auto
    with False rest show ?thesis
      by (auto simp: ties_shared_def)
  qed
qed

lemma sorted_hd_le: "sorted_wrt dle xs \<Longrightarrow> no_nan xs \<Longrightarrow> x \<in> set xs \<Longrightarrow> dle (hd xs) x"
  by (cases xs) (auto simp: no_nan_def dle_refl)

lemma walk_ties:
  assumes "no_nan a" "no_nan b" "sorted_wrt dle a" "sorted_wrt dle b"
  shows "\<exists>U'. mwu_walk a b j U ties = Some (U', ties + ties_shared a b)"
  using assms
proof (induction "length a + length b" arbitrary: a b j U ties rule: less_induct)
  case less
  show ?case
  proof (cases "a = [] \<and> b = []")
    case True
    then show ?thesis
      by (subst mwu_walk.simps) (simp add: ties_shared_def)
  next
    case False
    define curr where "curr = (if b = [] \<or> (a \<noteq> [] \<and> dlt (hd a) (hd b)) then hd a else hd b)"
    have hda: "a \<noteq> [] \<Longrightarrow> \<not> isnan (hd a)"
      using less.prems(1) by (cases a) (simp_all add: no_nan_def)
    have hdb: "b \<noteq> [] \<Longrightarrow> \<not> isnan (hd b)"
      using less.prems(2) by (cases b) (simp_all add: no_nan_def)
    have nc: "\<not> isnan curr"
      using False hda hdb by (auto simp: curr_def)
    have mem: "curr \<in> set a \<union> set b"
      using False by (auto simp: curr_def)
    have lea: "\<forall>x\<in>set a. dle curr x"
    proof
      fix x assume x: "x \<in> set a"
      then have ne: "a \<noteq> []" by auto
      have 1: "dle (hd a) x" using less.prems x by (simp add: sorted_hd_le)
      show "dle curr x"
      proof (cases "b = [] \<or> dlt (hd a) (hd b)")
        case True
        with ne 1 show ?thesis by (simp add: curr_def)
      next
        case False
        then have "curr = hd b" "dle (hd b) (hd a)"
          using ne hda hdb by (auto simp: curr_def not_dlt_dle)
        with 1 show ?thesis by (auto intro: dle_trans)
      qed
    qed
    have leb: "\<forall>x\<in>set b. dle curr x"
    proof
      fix x assume x: "x \<in> set b"
      then have ne: "b \<noteq> []" by auto
      have 1: "dle (hd b) x" using less.prems x by (simp add: sorted_hd_le)
      show "dle curr x"
      proof (cases "a \<noteq> [] \<and> dlt (hd a) (hd b)")
        case True
        then have "curr = hd a" "dle (hd a) (hd b)"
          using ne by (auto simp: curr_def dle_def)
        with 1 show ?thesis by (auto intro: dle_trans)
      next
        case False
        with ne 1 show ?thesis by (auto simp: curr_def)
      qed
    qed
    let ?a' = "filter (\<lambda>x. x \<noteq> curr) a" and ?b' = "filter (\<lambda>x. x \<noteq> curr) b"
    note ga = group_at_front [OF less.prems(3) nc lea]
    note gb = group_at_front [OF less.prems(4) nc leb]
    have len: "length ?a' + length ?b' < length a + length b"
    proof -
      have "length ?a' \<le> length a" "length ?b' \<le> length b" by simp_all
      moreover have "length ?a' < length a \<or> length ?b' < length b"
        using mem by (auto intro: length_filter_less)
      ultimately show ?thesis by linarith
    qed
    have pre: "no_nan ?a'" "no_nan ?b'" "sorted_wrt dle ?a'" "sorted_wrt dle ?b'"
      using less.prems by (simp_all add: no_nan_def list_all_iff sorted_wrt_filter)
    let ?ca = "count_list a curr" and ?cb = "count_list b curr"
    let ?ties' = "(if ?ca \<noteq> 0 \<and> ?cb \<noteq> 0
                   then ties + ((real (?ca + ?cb))\<^sup>2 - 1) * real (?ca + ?cb) else ties)"
    from less.hyps [OF len pre, of "j + ?cb" "U + real ?ca * (real (j + ?cb) - real ?cb * 0.5)" ?ties']
    obtain U' where
      rec: "mwu_walk ?a' ?b' (j + ?cb) (U + real ?ca * (real (j + ?cb) - real ?cb * 0.5)) ?ties'
            = Some (U', ?ties' + ties_shared ?a' ?b')"
      by blast
    define ca where "ca = length (takeWhile (\<lambda>x. deq x curr) a)"
    define cb where "cb = length (takeWhile (\<lambda>x. deq x curr) b)"
    have unf: "mwu_walk a b j U ties =
        mwu_walk (dropWhile (\<lambda>x. deq x curr) a) (dropWhile (\<lambda>x. deq x curr) b) (j + cb)
          (U + real ca * (real (j + cb) - real cb * 0.5))
          (if ca \<noteq> 0 \<and> cb \<noteq> 0
           then ties + ((real (ca + cb))\<^sup>2 - 1) * real (ca + cb) else ties)"
      unfolding ca_def cb_def curr_def
      by (rule trans [OF mwu_walk.simps]) (simp only: False if_False Let_def)
    have eqs: "ca = ?ca" "cb = ?cb" "dropWhile (\<lambda>x. deq x curr) a = ?a'"
      "dropWhile (\<lambda>x. deq x curr) b = ?b'"
      using ga gb by (simp_all add: ca_def cb_def length_filter_eq_count)
    have step: "mwu_walk a b j U ties =
        mwu_walk ?a' ?b' (j + ?cb) (U + real ?ca * (real (j + ?cb) - real ?cb * 0.5)) ?ties'"
      using unf unfolding eqs .
    have tie: "?ties' = ties + (if curr \<in> set a \<and> curr \<in> set b then tie_term (?ca + ?cb) else 0)"
      unfolding count_pos_iff tie_term_def by simp
    have "?ties' + ties_shared ?a' ?b' = ties + ties_shared a b"
      unfolding tie by (subst ties_shared_split [of a b curr]) simp
    with step rec show ?thesis
      by simp
  qed
qed

lemma no_nan_while:
  "no_nan (dropWhile (\<lambda>x. deq x c) xs) \<Longrightarrow> no_nan xs"
  by (induction xs) (auto simp: no_nan_def deq_def split: if_splits)

lemma walk_returns_no_nan:
  assumes "mwu_walk a b j U ties = Some r"
  shows "no_nan a \<and> no_nan b"
proof (rule mwu_walk.raw_induct [where P = "\<lambda>a b j U ties r. no_nan a \<and> no_nan b", OF _ assms])
  fix f a b j U ties r
  assume ih: "\<And>a b j U ties r. f a b j U ties = Some r \<Longrightarrow> no_nan a \<and> no_nan b"
    and body: "(if a = [] \<and> b = [] then Some (U, ties)
      else let curr = if b = [] \<or> a \<noteq> [] \<and> dlt (hd a) (hd b) then hd a else hd b;
               ca = length (takeWhile (\<lambda>x. deq x curr) a);
               cb = length (takeWhile (\<lambda>x. deq x curr) b); j' = j + cb;
               U' = U + real ca * (real j' - real cb * 0.5);
               ties' = (if ca \<noteq> 0 \<and> cb \<noteq> 0
                   then ties + ((real (ca + cb))\<^sup>2 - 1) * real (ca + cb)
                   else ties)
           in f (dropWhile (\<lambda>x. deq x curr) a) (dropWhile (\<lambda>x. deq x curr) b) j' U' ties') =
     Some r"
  show "no_nan a \<and> no_nan b"
  proof (cases "a = [] \<and> b = []")
    case True
    then show ?thesis by (simp add: no_nan_def)
  next
    case False
    with body obtain c j' U' ties' where
      "f (dropWhile (\<lambda>x. deq x c) a) (dropWhile (\<lambda>x. deq x c) b) j' U' ties' = Some r"
      by (simp only: if_False Let_def)
    from ih [OF this] show ?thesis
      by (auto dest: no_nan_while)
  qed
qed

text \<open>
  Claim C4, as stated: the \<^verbatim>\<open>ties\<close> accumulator of \<^verbatim>\<open>mann_whitney_u\<close> is the sum of \<open>t\<^sup>3 - t\<close>
  over every tie group of the pooled data. It is not: the accumulation is guarded by
  \<^verbatim>\<open>if (ca && cb)\<close>, so a group of equal values that all lie in one sample adds nothing. For
  eight values 1 against the values 2 and 3 (\<open>na \<ge> 8\<close>, the normal approximation, where
  \<^verbatim>\<open>ties\<close> enters the variance) the walk ends with \<^verbatim>\<open>ties = 0\<close>, while the group of the eight
  values 1 has \<open>t\<^sup>3 - t = 504\<close>.
\<close>

theorem mwu_ties_skips_one_sample_groups:
  "mwu_walk (qsort [Fin 1, Fin 1, Fin 1, Fin 1, Fin 1, Fin 1, Fin 1, Fin 1])
       (qsort [Fin 2, Fin 3]) 0 0 0 = Some (0, 0) \<and>
   ties_pooled [Fin 1, Fin 1, Fin 1, Fin 1, Fin 1, Fin 1, Fin 1, Fin 1] [Fin 2, Fin 3] = 504"
  by (simp add: qsort_def cmpfunc_def mwu_walk.simps deq_def ties_pooled_def tie_term_def)

text \<open>
  Claim C4, amended: for every pair of samples, if neither holds a NaN the walk of
  \<^verbatim>\<open>mann_whitney_u\<close> over the sorted samples ends, and its \<^verbatim>\<open>ties\<close> accumulator is the sum of
  \<open>t\<^sup>3 - t\<close>, \<open>t = c\<^sub>a + c\<^sub>b\<close>, over the tie groups whose value occurs in both samples
  (\<open>c\<^sub>a > 0\<close> and \<open>c\<^sub>b > 0\<close>); if a sample holds a NaN the walk never ends.
\<close>

theorem mwu_ties_shared:
  "\<exists>U. mwu_walk (qsort a) (qsort b) 0 0 0 =
     (if no_nan a \<and> no_nan b then Some (U, ties_shared a b) else None)"
proof (cases "no_nan a \<and> no_nan b")
  case True
  have "ties_shared (qsort a) (qsort b) = ties_shared a b"
    by (simp add: ties_shared_def set_qsort count_qsort)
  with walk_ties [of "qsort a" "qsort b" 0 0 0] True show ?thesis
    by (simp add: no_nan_qsort sorted_qsort)
next
  case False
  have "mwu_walk (qsort a) (qsort b) 0 0 0 = None"
  proof (cases "mwu_walk (qsort a) (qsort b) 0 0 0")
    case None
    then show ?thesis .
  next
    case (Some r)
    from walk_returns_no_nan [OF this] False show ?thesis
      by (simp add: no_nan_qsort)
  qed
  with False show ?thesis by simp
qed

theorem mwu_ties_shared_witness:
  "(\<exists>U. mwu_walk (qsort [Fin 2, Fin 1, Fin 2]) (qsort [Fin 3, Fin 2]) 0 0 0 = Some (U, 24)) \<and>
   mwu_walk (qsort [NaN]) (qsort [Fin 1]) 0 0 0 = None"
  using mwu_ties_shared [of "[Fin 2, Fin 1, Fin 2]" "[Fin 3, Fin 2]"]
    mwu_ties_shared [of "[NaN]" "[Fin 1]"]
  by (simp add: no_nan_def ties_shared_def tie_term_def)

section \<open>The binomial tail in binary64\<close>

text \<open>
  The rounding of a quotient of integers that lies between \<open>2\<^sup>5\<^sup>2\<close> and \<open>2\<^sup>5\<^sup>3\<close>, scaled by a
  power of two, is computed by an integer division.
\<close>

lemma round_half_even_frac:
  assumes "0 < d"
  shows "round_half_even (of_int n / of_int d) = round_at (n div d) (2 * (n mod d)) d"
proof -
  have f: "\<lfloor>of_int n / of_int d :: real\<rfloor> = n div d"
    by (simp add: floor_divide_of_int_eq)
  have "of_int n = of_int (n div d) * (of_int d :: real) + of_int (n mod d)"
    by (metis of_int_add of_int_mult div_mult_mod_eq)
  then have r: "of_int n / of_int d - of_int (n div d) = (of_int (n mod d) / of_int d :: real)"
    using assms by (simp add: field_simps)
  have 1: "(of_int (n mod d) / of_int d :: real) < 1 / 2 \<longleftrightarrow> 2 * (n mod d) < d"
  proof -
    have "(of_int (n mod d) / of_int d :: real) < 1 / 2 \<longleftrightarrow> (of_int (2 * (n mod d)) :: real) < of_int d"
      using assms by (simp add: field_simps)
    then show ?thesis by (simp only: of_int_less_iff)
  qed
  have 2: "(1 / 2 :: real) < of_int (n mod d) / of_int d \<longleftrightarrow> d < 2 * (n mod d)"
  proof -
    have "(1 / 2 :: real) < of_int (n mod d) / of_int d \<longleftrightarrow> (of_int d :: real) < of_int (2 * (n mod d))"
      using assms by (simp add: field_simps)
    then show ?thesis by (simp only: of_int_less_iff)
  qed
  show ?thesis
    unfolding round_half_even_def Let_def f r 1 2 round_at_def ..
qed

lemma rnd53_frac:
  assumes "0 < d" and "4503599627370496 * d \<le> n" and "n < 9007199254740992 * d"
  shows "rnd53 (of_int n / of_int d * 2 powi g) = fl (round_at (n div d) (2 * (n mod d)) d) g"
proof -
  define q :: real where "q = of_int n / of_int d"
  have d: "(0 :: real) < of_int d" using assms by simp
  have "(of_int (4503599627370496 * d) :: real) \<le> of_int n"
    using assms(2) by (simp only: of_int_le_iff)
  then have lo: "2 ^ 52 \<le> q"
    using d by (simp add: q_def field_simps)
  have "(of_int n :: real) < of_int (9007199254740992 * d)"
    using assms(3) by (simp only: of_int_less_iff)
  then have hi: "q < 2 ^ 53"
    using d by (simp add: q_def field_simps)
  have qpos: "0 < q" using lo by (rule less_le_trans [rotated]) simp
  have x: "0 < q * 2 powi g" using qpos by simp
  have "log 2 (2 powi g) = of_int g"
    using log_powr_cancel [of 2 "of_int g"] by (simp add: powr_real_of_int')
  then have "log 2 (q * 2 powi g) = log 2 q + of_int g"
    using qpos by (simp add: log_mult)
  moreover have "\<lfloor>log 2 q\<rfloor> = 52"
  proof (rule floor_unique)
    have l52: "log 2 ((2 :: real) ^ 52) = 52" by (subst log_pow_cancel) simp_all
    have l53: "log 2 ((2 :: real) ^ 53) = 53" by (subst log_pow_cancel) simp_all
    have "log 2 (2 ^ 52) \<le> log 2 q" using lo qpos by (subst log_le_cancel_iff) simp_all
    then show "of_int 52 \<le> log 2 q" unfolding l52 by simp
    have "log 2 q < log 2 (2 ^ 53)" using hi qpos by (subst log_less_cancel_iff) simp_all
    then show "log 2 q < of_int 52 + 1" unfolding l53 by simp
  qed
  ultimately have e: "\<lfloor>log 2 \<bar>q * 2 powi g\<bar>\<rfloor> - 52 = g"
    using x by simp
  have c: "q * 2 powi g / 2 powi g = q" by simp
  have r: "round_half_even q = round_at (n div d) (2 * (n mod d)) d"
    unfolding q_def by (rule round_half_even_frac [OF assms(1)])
  have "rnd53 (q * 2 powi g) = of_int (round_half_even (q * 2 powi g / 2 powi g)) * 2 powi g"
    using x e qpos by (simp add: rnd53_def Let_def)
  then have "rnd53 (q * 2 powi g) = of_int (round_at (n div d) (2 * (n mod d)) d) * 2 powi g"
    by (simp only: c r)
  then show ?thesis
    by (simp only: fl_def q_def)
qed

lemma rq_eq: "rq n d g = rnd53 (of_int n / of_int d * 2 powi g)"
  using rnd53_frac [of d n g] by (simp add: rq_def del: of_int_mult times_divide_eq_left)

lemma fl_mult: "fl a e * fl b f = fl (a * b) (e + f)"
  by (simp add: fl_def power_int_add)

lemma fl_half: "fl a e / 2 = fl a (e - 1)" "fl a e * (1 / 2) = fl a (e - 1)"
  by (simp_all add: fl_def power_int_diff)

lemma fl_double: "2 * fl a e = fl a (e + 1)"
  by (simp add: fl_def power_int_add)

lemma fl_add:
  "fl a e + fl b f =
     (if f \<le> e then fl (a * 2 ^ nat (e - f) + b) f else fl (a + b * 2 ^ nat (f - e)) e)"
proof -
  have "fl a e = fl (a * 2 ^ nat (e - f)) f" if "f \<le> e" for a e f
  proof -
    have "(2 :: real) powi e = 2 powi (e - f) * 2 powi f"
      by (simp add: power_int_add [symmetric])
    also have "(2 :: real) powi (e - f) = 2 ^ nat (e - f)"
      using that by (simp add: power_int_def)
    finally show ?thesis by (simp add: fl_def)
  qed
  from this [of f e a] this [of e f b] show ?thesis
    by (auto simp: fl_def algebra_simps)
qed

lemma round_half_even_int: "round_half_even (of_int k) = k"
  by (simp add: round_half_even_def)

lemma rnd53_exact:
  assumes "0 < S" and "S < 9007199254740992"
  shows "rnd53 (fl S E) = fl S E"
proof -
  define x :: real where "x = fl S E"
  define e where "e = \<lfloor>log 2 \<bar>x\<bar>\<rfloor> - 52"
  have xpos: "0 < x" using assms(1) by (simp add: x_def fl_def)
  have l2: "log 2 (2 powi g) = of_int g" for g
    using log_powr_cancel [of 2 "of_int g"] by (simp add: powr_real_of_int')
  have l53: "log 2 ((2 :: real) ^ 53) = 53" by (subst log_pow_cancel) simp_all
  have "(of_int S :: real) < of_int 9007199254740992"
    using assms(2) by (simp only: of_int_less_iff)
  then have "(of_int S :: real) < 2 ^ 53" by simp
  then have "log 2 (of_int S) < log 2 (2 ^ 53)"
    using assms(1) by (subst log_less_cancel_iff) simp_all
  then have "log 2 (of_int S) < 53" unfolding l53 .
  moreover have "log 2 x = log 2 (of_int S) + of_int E"
    using assms(1) by (simp add: x_def fl_def log_mult l2)
  ultimately have "log 2 x < of_int (53 + E)" by simp
  then have "\<lfloor>log 2 x\<rfloor> < 53 + E" by (simp only: floor_less_iff)
  then have le: "e \<le> E" using xpos by (simp add: e_def)
  have "x / 2 powi e = of_int S * 2 powi (E - e)"
    by (simp add: x_def fl_def power_int_diff)
  also have "(2 :: real) powi (E - e) = 2 ^ nat (E - e)"
    using le by (simp add: power_int_def)
  finally have "x / 2 powi e = of_int (S * 2 ^ nat (E - e))" by simp
  then have "round_half_even (x / 2 powi e) = S * 2 ^ nat (E - e)"
    by (simp only: round_half_even_int)
  then have "rnd53 x = of_int (S * 2 ^ nat (E - e)) * 2 powi e"
    using xpos by (simp add: rnd53_def e_def Let_def)
  also have "\<dots> = of_int S * (2 powi (E - e) * 2 powi e)"
    using le by (simp add: power_int_def)
  also have "\<dots> = x"
    by (simp add: power_int_add [symmetric] x_def fl_def)
  finally show ?thesis by (simp add: x_def)
qed

lemma rnd53_fl:
  "rnd53 (fl (numeral n) E) =
     (if (numeral n :: int) < 9007199254740992 then fl (numeral n) E
      else rq (numeral n) (2 ^ (nbits n - 53)) (E + int (nbits n - 53)))"
proof (cases "(numeral n :: int) < 9007199254740992")
  case True
  from rnd53_exact [OF _ True, of E] have "rnd53 (fl (numeral n) E) = fl (numeral n) E"
    by simp
  with True show ?thesis by (simp only: if_True)
next
  case False
  have "of_int S / of_int (2 ^ s) * 2 powi (E + int s) = fl S E" for S s
    by (simp add: fl_def power_int_add)
  with False show ?thesis by (simp only: if_False rq_eq)
qed

lemma pow2_cancel: "(2 :: real) ^ k * 2 powi (- int k) = 1"
  by (simp add: power_int_minus field_simps)

lemma rq2_eq:
  assumes "0 < b"
  shows "rq2 (a * 2 ^ k) b k = rnd53 (of_int a / of_int b)"
proof -
  have 1: "of_int (a * 2 ^ k) / of_int b * 2 powi (- int k) = (of_int a / of_int b :: real)"
    using pow2_cancel [of k] by (simp add: field_simps)
  have "(2 :: real) powi (1 - int k) = 2 * 2 powi (- int k)"
    by (simp add: power_int_diff power_int_minus field_simps)
  then have 2: "of_int (a * 2 ^ k) / of_int (2 * b) * 2 powi (1 - int k) = (of_int a / of_int b :: real)"
    using pow2_cancel [of k] assms by (simp add: field_simps)
  show ?thesis
    unfolding rq2_def rq_eq 1 2 by simp
qed

lemma rnd53_quot:
  "rnd53 (numeral a / numeral b) =
     rq2 (numeral a * 2 ^ (53 + nbits b - nbits a)) (numeral b) (53 + nbits b - nbits a)"
  "rnd53 (numeral a) =
     rq2 (numeral a * 2 ^ (54 - nbits a)) 1 (54 - nbits a)"
  using rq2_eq [of "numeral b" "numeral a" "53 + nbits b - nbits a"]
    rq2_eq [of 1 "numeral a" "54 - nbits a"]
  by simp_all

lemma dbinom_entry_numeral:
  "dbinom_entry rnd (numeral a) (numeral b) =
     rnd (rnd (rnd (numeral a / numeral b) * dbinom_entry rnd (pred_numeral a) (pred_numeral b)) * 0.5)"
  "dbinom_entry rnd (numeral a) (Suc 0) =
     rnd (rnd (rnd (numeral a) * dbinom_entry rnd (pred_numeral a) 0) * 0.5)"
proof -
  have "dbinom_entry rnd (Suc (pred_numeral a)) (Suc j) =
      rnd (rnd (rnd (real (Suc (pred_numeral a)) / real (Suc j)) * dbinom_entry rnd (pred_numeral a) j) * 0.5)" for j
    by (simp only: dbinom_entry.simps)
  from this [of "pred_numeral b"] this [of 0]
  show "dbinom_entry rnd (numeral a) (numeral b) =
     rnd (rnd (rnd (numeral a / numeral b) * dbinom_entry rnd (pred_numeral a) (pred_numeral b)) * 0.5)"
    "dbinom_entry rnd (numeral a) (Suc 0) =
     rnd (rnd (rnd (numeral a) * dbinom_entry rnd (pred_numeral a) 0) * 0.5)"
    unfolding numeral_eq_Suc [symmetric] of_nat_numeral by simp_all
qed

lemma pbinom_entry_numeral:
  "pbinom_entry rnd i (numeral b) = rnd (pbinom_entry rnd i (pred_numeral b) + dbinom_entry rnd i (numeral b))"
  "pbinom_entry rnd i (Suc 0) = rnd (dbinom_entry rnd i 0 + dbinom_entry rnd i (Suc 0))"
  by (simp_all add: numeral_eq_Suc)

lemma dbinom_entry_col0: "dbinom_entry rnd53 i 0 = fl 1 (- int i)"
proof (induction i)
  case 0
  show ?case by (simp add: fl_def)
next
  case (Suc i)
  have e: "- int i - 1 = - int (Suc i)" by simp
  have "dbinom_entry rnd53 (Suc i) 0 = rnd53 (fl 1 (- int i) * (1 / 2))"
    using Suc by simp
  also have "\<dots> = rnd53 (fl 1 (- int (Suc i)))"
    by (simp only: fl_half e)
  also have "\<dots> = fl 1 (- int (Suc i))"
    by (rule rnd53_exact) simp_all
  finally show ?case .
qed

lemmas fl_eval = rnd53_fl rnd53_quot rq2_def rq_def round_at_def fl_mult fl_half fl_double fl_add
  dbinom_entry_numeral dbinom_entry_col0

text \<open>
  The table that \<^verbatim>\<open>binom_exact\<close> builds at its first call holds \<open>dbinom_entry\<close> and
  \<open>pbinom_entry\<close>, for every rounding. First the indices: the rows lie one after another.
\<close>

lemma binom_idx_next: "0 < i \<Longrightarrow> binom_idx i ((i + 1) div 2) = binom_idx (Suc i) 0"
proof -
  assume "0 < i"
  have "(i div 2) * ((i + 1) div 2) + (i + 1) div 2 = ((i + 1) div 2) * ((i + 2) div 2)"
  proof (cases "even i")
    case True
    then obtain m where "i = 2 * m" by (auto elim: evenE)
    then show ?thesis by simp
  next
    case False
    then obtain m where "i = 2 * m + 1" by (auto elim: oddE)
    then show ?thesis by simp
  qed
  with \<open>0 < i\<close> show ?thesis by (simp add: binom_idx_def)
qed

lemma binom_idx_add: "0 < i \<Longrightarrow> binom_idx i j = binom_idx i 0 + j"
  by (simp add: binom_idx_def)

lemma binom_idx_mono:
  assumes "0 < i" and "i < i'" and "j < (i + 1) div 2"
  shows "binom_idx i j < binom_idx i' 0"
  using assms(2,1,3)
proof (induction i' rule: less_induct)
  case (less i')
  then obtain k where k: "i' = Suc k" by (cases i') auto
  show ?case
  proof (cases "k = i")
    case True
    with less.prems k binom_idx_next [of i] binom_idx_add [of i j] binom_idx_add [of i "(i + 1) div 2"]
    show ?thesis by simp
  next
    case False
    with less.prems k have "i < k" by simp
    from less.IH [OF _ this less.prems(2,3)] k have "binom_idx i j < binom_idx k 0" by simp
    moreover have "binom_idx k 0 \<le> binom_idx (Suc k) 0"
      using binom_idx_next [of k] binom_idx_add [of k "(k + 1) div 2"] \<open>i < k\<close> by simp
    ultimately show ?thesis using k by simp
  qed
qed

text \<open>The inner loop, \<open>m\<close> passes from the state \<open>(c0, p0, d, p)\<close>.\<close>

lemma row_steps:
  assumes "p0 + m \<le> c0 + 1"
  shows "\<exists>d' p'. fold (binom_row_step rnd i) [1..<Suc m] (c0, p0, d, p) = (c0 + m, p0 + m, d', p') \<and>
           (\<forall>k. k \<le> c0 \<or> c0 + m < k \<longrightarrow> d' k = d k \<and> p' k = p k) \<and>
           (\<forall>t. 1 \<le> t \<and> t \<le> m \<longrightarrow>
              d' (c0 + t) = rnd (rnd (rnd (real i / real t) * d (p0 + t - 1)) * 0.5) \<and>
              p' (c0 + t) = rnd (p' (c0 + t - 1) + d' (c0 + t)))"
  using assms
proof (induction m)
  case 0
  then show ?case by simp
next
  case (Suc m)
  then obtain d1 p1 where
    f: "fold (binom_row_step rnd i) [1..<Suc m] (c0, p0, d, p) = (c0 + m, p0 + m, d1, p1)" and
    out: "\<And>k. k \<le> c0 \<or> c0 + m < k \<Longrightarrow> d1 k = d k \<and> p1 k = p k" and
    ins: "\<And>t. 1 \<le> t \<and> t \<le> m \<Longrightarrow>
              d1 (c0 + t) = rnd (rnd (rnd (real i / real t) * d (p0 + t - 1)) * 0.5) \<and>
              p1 (c0 + t) = rnd (p1 (c0 + t - 1) + d1 (c0 + t))"
    by auto
  define c where "c = c0 + Suc m"
  define d2 where "d2 = d1(c := rnd (rnd (rnd (real i / real (Suc m)) * d1 (p0 + m)) * 0.5))"
  define p2 where "p2 = p1(c := rnd (p1 (c - 1) + d2 c))"
  have rd: "d1 (p0 + m) = d (p0 + m)"
    using out [of "p0 + m"] Suc.prems by simp
  have step: "fold (binom_row_step rnd i) [1..<Suc (Suc m)] (c0, p0, d, p) = (c, p0 + Suc m, d2, p2)"
    using f by (simp add: binom_row_step_def Let_def c_def d2_def p2_def)
  have o2: "d2 k = d k \<and> p2 k = p k" if "k \<le> c0 \<or> c0 + Suc m < k" for k
    using that out [of k] by (auto simp: d2_def p2_def c_def)
  have i2: "d2 (c0 + t) = rnd (rnd (rnd (real i / real t) * d (p0 + t - 1)) * 0.5) \<and>
            p2 (c0 + t) = rnd (p2 (c0 + t - 1) + d2 (c0 + t))" if "1 \<le> t \<and> t \<le> Suc m" for t
  proof (cases "t = Suc m")
    case True
    then show ?thesis
      using rd by (simp add: d2_def p2_def c_def)
  next
    case False
    with that have t: "1 \<le> t \<and> t \<le> m" by simp
    then have "c0 + t \<noteq> c" "c0 + t - 1 \<noteq> c" unfolding c_def by linarith+
    with ins [OF t] show ?thesis
      by (simp add: d2_def p2_def)
  qed
  from step o2 i2 show ?case
    unfolding c_def by blast
qed

text \<open>One row, and the rows from 1 on.\<close>

lemma fill_row_inv:
  assumes inv: "table_inv rnd i d p"
  shows "table_inv rnd (Suc i) (fst (binom_fill_row rnd (Suc i) (d, p)))
           (snd (binom_fill_row rnd (Suc i) (d, p)))"
proof -
  define r where "r = (Suc i + 1) div 2"
  define m where "m = r - 1"
  define c where "c = binom_idx (Suc i) 0"
  define pr where "pr = binom_idx i 0"
  define d1 where "d1 = d(c := rnd (d pr * 0.5))"
  define p1 where "p1 = p(c := d1 c)"
  have r: "r = Suc m" by (simp add: r_def m_def)
  have m_le: "m \<le> i div 2" by (simp add: m_def r_def)
  have c_eq: "c = 1 + (Suc i div 2) * ((Suc i + 1) div 2)"
    by (simp add: c_def binom_idx_def)
  have pr_eq: "pr = (if Suc i - 1 \<noteq> 0 then 1 + ((Suc i - 1) div 2) * (Suc i div 2) else 0)"
    by (simp add: pr_def binom_idx_def)
  have pr_c: "pr + i div 2 \<le> c"
  proof (cases "i = 0")
    case True
    then show ?thesis by (simp add: pr_def c_def binom_idx_def)
  next
    case False
    then show ?thesis
      using binom_idx_next [of i] binom_idx_add [of i "(i + 1) div 2"]
      by (simp add: pr_def c_def)
  qed
  have lt_c: "binom_idx i' j < c" if "1 \<le> i'" "i' \<le> i" "j < (i' + 1) div 2" for i' j
    using binom_idx_mono [of i' "Suc i" j] that by (simp add: c_def)
  have pos_c: "0 < c" by (simp add: c_eq)
  have pm: "pr + m \<le> c + 1" using pr_c m_le by linarith
  from row_steps [OF pm, of rnd "Suc i" d1 p1]
  obtain d' p' where
    f: "fold (binom_row_step rnd (Suc i)) [1..<Suc m] (c, pr, d1, p1) = (c + m, pr + m, d', p')" and
    out: "\<And>k. k \<le> c \<or> c + m < k \<Longrightarrow> d' k = d1 k \<and> p' k = p1 k" and
    ins: "\<And>t. 1 \<le> t \<and> t \<le> m \<Longrightarrow>
              d' (c + t) = rnd (rnd (rnd (real (Suc i) / real t) * d1 (pr + t - 1)) * 0.5) \<and>
              p' (c + t) = rnd (p' (c + t - 1) + d' (c + t))"
    by blast
  have res: "binom_fill_row rnd (Suc i) (d, p) = (d', p')"
    unfolding binom_fill_row_def prod.case Let_def
    using f unfolding d1_def p1_def c_eq pr_eq r [symmetric] r_def by simp
  have old: "d' k = d k \<and> p' k = p k" if "k < c" for k
    using out [of k] that by (simp add: d1_def p1_def)
  have prev: "d (pr + j) = dbinom_entry rnd i j" if "j < (i + 1) div 2 \<or> (i = 0 \<and> j = 0)" for j
  proof (cases "i = 0")
    case True
    with that inv show ?thesis by (auto simp: pr_def binom_idx_def table_inv_def)
  next
    case False
    with that have j: "j < (i + 1) div 2" "1 \<le> i" by simp_all
    with inv have "d (binom_idx i j) = dbinom_entry rnd i j"
      unfolding table_inv_def by blast
    with binom_idx_add [of i j] j show ?thesis by (simp add: pr_def)
  qed
  have d0: "d' c = dbinom_entry rnd (Suc i) 0"
  proof -
    have "d' c = rnd (d pr * 0.5)" using out [of c] by (simp add: d1_def)
    moreover have "d pr = dbinom_entry rnd i 0"
    proof (cases "i = 0")
      case True
      with prev [of 0] show ?thesis by simp
    next
      case False
      then have "0 < (i + 1) div 2" by (cases i) simp_all
      with prev [of 0] show ?thesis by simp
    qed
    ultimately show ?thesis by simp
  qed
  have dt: "d' (c + t) = dbinom_entry rnd (Suc i) t" if "t \<le> m" for t
  proof (cases t)
    case 0
    with d0 show ?thesis by simp
  next
    case (Suc t')
    with that m_le have t': "t' < i div 2" by simp
    then have "t' < (i + 1) div 2" by linarith
    from prev [of t'] this have "d (pr + t') = dbinom_entry rnd i t'" by simp
    moreover have "pr + t' < c" using pr_c t' by linarith
    then have "d1 (pr + t') = d (pr + t')" by (simp add: d1_def)
    ultimately show ?thesis
      using ins [of t] that Suc by simp
  qed
  have pt: "p' (c + t) = pbinom_entry rnd (Suc i) t" if "t \<le> m" for t
    using that
  proof (induction t)
    case 0
    have "p' c = d1 c" using out [of c] by (simp add: p1_def)
    also have "\<dots> = d' c" using out [of c] by simp
    finally show ?case using d0 by simp
  next
    case (Suc t)
    then have "p' (c + t) = pbinom_entry rnd (Suc i) t" by simp
    with ins [of "Suc t"] dt [of "Suc t"] Suc.prems show ?case by simp
  qed
  have z: "d' 0 = 1" using old [of 0] pos_c inv by (simp add: table_inv_def)
  have e: "d' (binom_idx i' j) = dbinom_entry rnd i' j \<and> p' (binom_idx i' j) = pbinom_entry rnd i' j"
    if a: "1 \<le> i' \<and> i' \<le> Suc i \<and> j < (i' + 1) div 2" for i' j
  proof (cases "i' = Suc i")
    case True
    with a have "j \<le> m" by (simp add: m_def r_def)
    with dt [of j] pt [of j] True binom_idx_add [of "Suc i" j] show ?thesis
      by (simp add: c_def)
  next
    case False
    with a have b: "1 \<le> i'" "i' \<le> i" "j < (i' + 1) div 2" by simp_all
    from inv b have "d (binom_idx i' j) = dbinom_entry rnd i' j \<and> p (binom_idx i' j) = pbinom_entry rnd i' j"
      unfolding table_inv_def by blast
    with old [OF lt_c [OF b]] show ?thesis by simp
  qed
  from z e have "table_inv rnd (Suc i) d' p'"
    unfolding table_inv_def by blast
  with res show ?thesis by simp
qed

lemma fill_rows_inv:
  assumes "d 0 = 1"
  shows "table_inv rnd n (fst (fold (binom_fill_row rnd) [1..<Suc n] (d, p)))
           (snd (fold (binom_fill_row rnd) [1..<Suc n] (d, p)))"
proof (induction n)
  case 0
  from assms show ?case by (simp add: table_inv_def)
next
  case (Suc n)
  define dp where "dp = fold (binom_fill_row rnd) [1..<Suc n] (d, p)"
  have "fold (binom_fill_row rnd) [1..<Suc (Suc n)] (d, p) =
          binom_fill_row rnd (Suc n) (fst dp, snd dp)"
    by (simp add: dp_def)
  with fill_row_inv [of rnd n "fst dp" "snd dp"] Suc show ?case
    by (simp add: dp_def)
qed

lemma binom_grow_table:
  assumes "1 \<le> n" and "k < (n + 1) div 2"
  shows "pbinom (binom_grow rnd n binom_tab0) (binom_idx n k) = pbinom_entry rnd n k"
proof -
  define dp where "dp = fold (binom_fill_row rnd) [1..<Suc n] ((\<lambda>_. 0)(0 := 1), \<lambda>_. 0)"
  have "table_inv rnd n (fst dp) (snd dp)"
    unfolding dp_def by (rule fill_rows_inv) simp
  with assms have "snd dp (binom_idx n k) = pbinom_entry rnd n k"
    by (simp add: table_inv_def)
  moreover have "pbinom (binom_grow rnd n binom_tab0) = snd dp"
    by (simp add: binom_grow_def binom_tab0_def dp_def Let_def split: prod.split)
  ultimately show ?thesis by simp
qed


text \<open>
  Row 41 in binary64. Each entry \<open>(41, j)\<close> is reached from \<open>(41 - j, 0)\<close>, which is
  \<open>2\<^sup>j\<^sup>-\<^sup>4\<^sup>1\<close>, by \<open>j\<close> rounded products; the sum of the entries up to column 20, which is
  \<open>1 / 2\<close> in exact arithmetic, is rounded to \<open>(2\<^sup>5\<^sup>2 + 1) / 2\<^sup>5\<^sup>3\<close>.
\<close>

lemma dbinom_entry_41_1: "dbinom_entry rnd53 41 (Suc 0) = fl 5770237022568448 (- 88)"
  by (simp add: fl_eval del: dbinom_entry.simps pbinom_entry.simps)

lemma dbinom_entry_41_2: "dbinom_entry rnd53 41 2 = fl 7212796278210560 (- 84)"
  by (simp add: fl_eval del: dbinom_entry.simps pbinom_entry.simps)

lemma dbinom_entry_41_3: "dbinom_entry rnd53 41 3 = fl 5860396976046080 (- 80)"
  by (simp add: fl_eval del: dbinom_entry.simps pbinom_entry.simps)

lemma dbinom_entry_41_4: "dbinom_entry rnd53 41 4 = fl 6959221409054720 (- 77)"
  by (simp add: fl_eval del: dbinom_entry.simps pbinom_entry.simps)

lemma dbinom_entry_41_5: "dbinom_entry rnd53 41 5 = fl 6437279803375615 (- 74)"
  by (simp add: fl_eval del: dbinom_entry.simps pbinom_entry.simps)

lemma dbinom_entry_41_6: "dbinom_entry rnd53 41 6 = fl 4827959852531712 (- 71)"
  by (simp add: fl_eval del: dbinom_entry.simps pbinom_entry.simps)

lemma dbinom_entry_41_7: "dbinom_entry rnd53 41 7 = fl 6034949815664640 (- 69)"
  by (simp add: fl_eval del: dbinom_entry.simps pbinom_entry.simps)

lemma dbinom_entry_41_8: "dbinom_entry rnd53 41 8 = fl 6412134179143680 (- 67)"
  by (simp add: fl_eval del: dbinom_entry.simps pbinom_entry.simps)

lemma dbinom_entry_41_9: "dbinom_entry rnd53 41 9 = fl 5877789664215040 (- 65)"
  by (simp add: fl_eval del: dbinom_entry.simps pbinom_entry.simps)

lemma dbinom_entry_41_10: "dbinom_entry rnd53 41 10 = fl 4702231731372032 (- 63)"
  by (simp add: fl_eval del: dbinom_entry.simps pbinom_entry.simps)

lemma dbinom_entry_41_11: "dbinom_entry rnd53 41 11 = fl 6625871985115136 (- 62)"
  by (simp add: fl_eval del: dbinom_entry.simps pbinom_entry.simps)

lemma dbinom_entry_41_12: "dbinom_entry rnd53 41 12 = fl 8282339981393921 (- 61)"
  by (simp add: fl_eval del: dbinom_entry.simps pbinom_entry.simps)

lemma dbinom_entry_41_13: "dbinom_entry rnd53 41 13 = fl 4618997297315839 (- 59)"
  by (simp add: fl_eval del: dbinom_entry.simps pbinom_entry.simps)

lemma dbinom_entry_41_14: "dbinom_entry rnd53 41 14 = fl 4618997297315840 (- 58)"
  by (simp add: fl_eval del: dbinom_entry.simps pbinom_entry.simps)

lemma dbinom_entry_41_15: "dbinom_entry rnd53 41 15 = fl 8314195135168512 (- 58)"
  by (simp add: fl_eval del: dbinom_entry.simps pbinom_entry.simps)

lemma dbinom_entry_41_16: "dbinom_entry rnd53 41 16 = fl 6755283547324416 (- 57)"
  by (simp add: fl_eval del: dbinom_entry.simps pbinom_entry.simps)

lemma dbinom_entry_41_17: "dbinom_entry rnd53 41 17 = fl 4967120255385600 (- 56)"
  by (simp add: fl_eval del: dbinom_entry.simps pbinom_entry.simps)

lemma dbinom_entry_41_18: "dbinom_entry rnd53 41 18 = fl 6622827007180800 (- 56)"
  by (simp add: fl_eval del: dbinom_entry.simps pbinom_entry.simps)

lemma dbinom_entry_41_19: "dbinom_entry rnd53 41 19 = fl 8017106377113606 (- 56)"
  by (simp add: fl_eval del: dbinom_entry.simps pbinom_entry.simps)

lemma dbinom_entry_41_20: "dbinom_entry rnd53 41 20 = fl 8818817014824957 (- 56)"
  by (simp add: fl_eval del: dbinom_entry.simps pbinom_entry.simps)

lemma pbinom_entry_41_20: "pbinom_entry rnd53 41 20 = fl 4503599627370497 (- 53)"
  by (simp add: pbinom_entry_numeral dbinom_entry_col0 rnd53_fl rq_def round_at_def fl_add
      dbinom_entry_41_1 dbinom_entry_41_2 dbinom_entry_41_3 dbinom_entry_41_4
      dbinom_entry_41_5 dbinom_entry_41_6 dbinom_entry_41_7 dbinom_entry_41_8
      dbinom_entry_41_9 dbinom_entry_41_10 dbinom_entry_41_11 dbinom_entry_41_12
      dbinom_entry_41_13 dbinom_entry_41_14 dbinom_entry_41_15 dbinom_entry_41_16
      dbinom_entry_41_17 dbinom_entry_41_18 dbinom_entry_41_19 dbinom_entry_41_20
      del: dbinom_entry.simps pbinom_entry.simps)

lemma binom_exact_21_41:
  "binom_exact rnd53 bd 21 41 binom_tab0 = (Fin (1 + 1 / 2 ^ 52), binom_grow rnd53 41 binom_tab0)"
proof -
  have "pbinom (binom_grow rnd53 41 binom_tab0) (binom_idx 41 20) = pbinom_entry rnd53 41 20"
    by (rule binom_grow_table) simp_all
  then have "pbinom (binom_grow rnd53 41 binom_tab0) 441 = fl 4503599627370497 (- 53)"
    by (simp add: binom_idx_def pbinom_entry_41_20)
  moreover have "rnd53 (2 * fl 4503599627370497 (- 53)) = 1 + 1 / 2 ^ 52"
    by (simp add: fl_double rnd53_fl) (simp add: fl_def power_int_minus)
  ultimately show ?thesis
    by (simp add: binom_exact_def binom_tab0_def Let_def)
qed

text \<open>
  Claim C2: \<^verbatim>\<open>binom_exact(k, n) == binom_exact(n - k, n)\<close> for \<open>0 \<le> k \<le> n \<le> 1000\<close>. In binary64
  it fails at \<open>n = 41\<close>: \<^verbatim>\<open>binom_exact(20, 41)\<close> leaves by \<^verbatim>\<open>if (k == n >> 1) return 1.0\<close>,
  while \<^verbatim>\<open>binom_exact(21, 41)\<close> is folded to column 20 only after that test and returns twice
  the rounded sum of the table, \<open>1 + 2\<^sup>-\<^sup>5\<^sup>2\<close>.
\<close>

theorem binom_exact_not_symmetric:
  "fst (binom_exact rnd53 bd 20 41 binom_tab0) = Fin 1 \<and>
   fst (binom_exact rnd53 bd 21 41 binom_tab0) = Fin (1 + 1 / 2 ^ 52) \<and>
   fst (binom_exact rnd53 bd 21 41 binom_tab0) \<noteq> fst (binom_exact rnd53 bd (41 - 21) 41 binom_tab0)"
  by (simp add: binom_exact_21_41) (simp add: binom_exact_def)

text \<open>
  Claim C3: \<^verbatim>\<open>binom_exact(k, n)\<close> is strictly positive and at most 1 for \<open>0 \<le> k \<le> n \<le> 1000\<close>.
  In binary64 \<^verbatim>\<open>binom_exact(21, 41)\<close> is above 1, and the value \<^verbatim>\<open>0 - log10(p)\<close> that the test
  battery writes for it is negative.
\<close>

theorem binom_exact_above_one:
  "\<exists>x y. fst (binom_exact rnd53 bd 21 41 binom_tab0) = Fin x \<and> 1 < x \<and>
     neg_log10 (Fin x) = Fin y \<and> y < 0"
proof -
  define x :: real where "x = 1 + 1 / 2 ^ 52"
  have 1: "1 < x" by (simp add: x_def)
  then have 2: "neg_log10 (Fin x) = Fin (- log 10 x)"
    by (simp add: neg_log10_def dsub_def)
  from 1 have 3: "- log 10 x < 0" by simp
  have "fst (binom_exact rnd53 bd 21 41 binom_tab0) = Fin x"
    by (simp add: binom_exact_21_41 x_def)
  with 1 2 3 show ?thesis by blast
qed

end
